theory Spec2Isabelle
  imports Main "HOL-Library.Word"
begin

text \<open>
  The Lisp interpreter lisgo, in its two variants: the full one (lexer, reader,
  environments, \<^verbatim>\<open>eval\<close> with \<^verbatim>\<open>quote\<close>, \<^verbatim>\<open>if\<close>, \<^verbatim>\<open>define\<close>, \<^verbatim>\<open>set!\<close>, \<^verbatim>\<open>lambda\<close> and
  application) and the calculator \<^verbatim>\<open>lispycalc.go\<close>. Every Go function is a function
  here under its own name; a panic is a value, the store of frames is passed along, and
  the functions of the Go library that the lexer and \<^verbatim>\<open>atom\<close> call are written out.
\<close>

section \<open>Values\<close>

text \<open>
  The interpreter keeps every value in a Go \<^verbatim>\<open>interface{}\<close>. The dynamic types that
  occur are \<^verbatim>\<open>int\<close>, \<^verbatim>\<open>string\<close> (a symbol), \<^verbatim>\<open>bool\<close>, \<^verbatim>\<open>[]interface{}\<close> (a list),
  the function literal bound to \<^verbatim>\<open>+\<close>, \<^verbatim>\<open>*Procedure\<close>, and the nil interface.
  Go's \<^verbatim>\<open>int\<close> is taken at 64 bits; addition wraps around.
  An \<^verbatim>\<open>*Env\<close> is an address into the store of frames.
\<close>

type_synonym addr = nat

datatype prim = PrimAdd

datatype val =
    NilV
  | Integer "64 word"
  | Symbol string
  | Boolean bool
  | List "val list"
  | Primitive prim
  | Procedure "string list" val addr

text \<open>
  A Go panic: either an explicit \<^verbatim>\<open>panic("...")\<close> of the program, with its message, or
  the run-time error of an index expression out of range.
\<close>

datatype panic = Panic string | IndexOutOfRange

section \<open>Lexer\<close>

text \<open>
  \<^verbatim>\<open>strings.Replace(chars, "(", " ( ", -1)\<close>: every occurrence of a one-character string
  is replaced.
\<close>

definition Replace :: "string \<Rightarrow> char \<Rightarrow> string \<Rightarrow> string" where
  "Replace s old new = concat (map (\<lambda>c. if c = old then new else [c]) s)"

text \<open>
  White space. \<^verbatim>\<open>strings.TrimSpace\<close> and the scanner of package fmt use Unicode's
  White_Space property, whose ASCII members are tab, line feed, vertical tab, form feed,
  carriage return and space; the regular expression class \<^verbatim>\<open>\s\<close> is the same set
  without the vertical tab. Source text is taken to be ASCII.
\<close>

definition isSpace :: "char \<Rightarrow> bool" where
  "isSpace c = (c \<in> set [CHR 0x09, CHR 0x0A, CHR 0x0B, CHR 0x0C, CHR 0x0D, CHR '' ''])"

definition isReSpace :: "char \<Rightarrow> bool" where
  "isReSpace c = (c \<in> set [CHR 0x09, CHR 0x0A, CHR 0x0C, CHR 0x0D, CHR '' ''])"

definition TrimSpace :: "string \<Rightarrow> string" where
  "TrimSpace s = rev (dropWhile isSpace (rev (dropWhile isSpace s)))"

text \<open>
  \<^verbatim>\<open>regexp.MustCompile("\\s+").Split(s, -1)\<close>: the pieces of \<open>s\<close> between the maximal
  runs of \<^verbatim>\<open>\s\<close>. A run at the very start or end leaves an empty piece there, and the
  empty string splits into one empty piece. \<open>splitRuns acc s\<close> carries the piece read so
  far.
\<close>

fun splitRuns :: "string \<Rightarrow> string \<Rightarrow> string list" where
  "splitRuns acc [] = [acc]"
| "splitRuns acc [c] = (if isReSpace c then [acc, []] else [acc @ [c]])"
| "splitRuns acc (c # d # cs) =
     (if isReSpace c then
        (if isReSpace d then splitRuns acc (d # cs) else acc # splitRuns [] (d # cs))
      else splitRuns (acc @ [c]) (d # cs))"

definition Split :: "string \<Rightarrow> string list" where
  "Split s = splitRuns [] s"

definition tokenize :: "string \<Rightarrow> string list" where
  "tokenize chars =
     (let s = Replace chars (CHR ''('') '' ( '';
          s = Replace s (CHR '')'') '' ) '';
          s = TrimSpace s
      in Split s)"

definition pop :: "string list \<Rightarrow> string \<times> string list" where
  "pop ts = (if length ts = 0 then ([], []) else (ts ! 0, drop 1 ts))"

section \<open>Scanning an integer\<close>

text \<open>
  \<^verbatim>\<open>fmt.Sscan(token, &n)\<close> with \<open>n\<close> an \<^verbatim>\<open>int\<close> (Go 1.13 and later): skip leading
  white space; accept one sign; accept a base prefix (\<^verbatim>\<open>0b\<close>, \<^verbatim>\<open>0o\<close>, \<^verbatim>\<open>0x\<close>, or a
  leading \<^verbatim>\<open>0\<close> for octal); accept the longest run of digits of that base and
  underscores; hand the accepted text to \<^verbatim>\<open>strconv.ParseInt(tok, 0, 64)\<close>. Whatever
  follows the accepted text is left unread and is not an error.
\<close>

definition binaryDigits :: string where "binaryDigits = ''01''"
definition octalDigits :: string where "octalDigits = ''01234567''"
definition decimalDigits :: string where "decimalDigits = ''0123456789''"
definition hexadecimalDigits :: string where "hexadecimalDigits = ''0123456789aAbBcCdDeEfF''"

definition accept :: "string \<Rightarrow> string \<Rightarrow> string \<times> string" where
  "accept ok s = (case s of c # cs \<Rightarrow> if c \<in> set ok then ([c], cs) else ([], s) | [] \<Rightarrow> ([], s))"

text \<open>The prefix put into the token buffer, the digits allowed after it, whether a zero
  was found, and the rest of the input.\<close>

definition scanBasePrefix :: "string \<Rightarrow> string \<times> string \<times> bool \<times> string" where
  "scanBasePrefix s =
     (case s of
        c # cs \<Rightarrow>
          if c = CHR ''0'' then
            (case cs of
               d # ds \<Rightarrow>
                 if d \<in> set ''bB'' then ([c, d], binaryDigits @ ''_'', True, ds)
                 else if d \<in> set ''oO'' then ([c, d], octalDigits @ ''_'', True, ds)
                 else if d \<in> set ''xX'' then ([c, d], hexadecimalDigits @ ''_'', True, ds)
                 else ([c], octalDigits @ ''_'', True, cs)
             | [] \<Rightarrow> ([c], octalDigits @ ''_'', True, cs))
          else ([], decimalDigits @ ''_'', False, s)
      | [] \<Rightarrow> ([], decimalDigits @ ''_'', False, s))"

text \<open>The text that \<^verbatim>\<open>scanInt\<close> accepts, or nothing when it reports an error (end of
  input, or no digit where one is expected).\<close>

definition scanToken :: "string \<Rightarrow> string option" where
  "scanToken token =
     (let s = dropWhile isSpace token in
      if s = [] then None
      else
        (case accept ''+-'' s of (sign, s1) \<Rightarrow>
         (case scanBasePrefix s1 of (pre, digits, haveDigits, s2) \<Rightarrow>
            let ds = takeWhile (\<lambda>c. c \<in> set digits) s2 in
            if \<not> haveDigits \<and> ds = [] then None
            else Some (sign @ pre @ ds))))"

text \<open>\<^verbatim>\<open>strconv\<close>: the value of a digit, \<^verbatim>\<open>underscoreOK\<close>, \<^verbatim>\<open>ParseUint\<close> and
  \<^verbatim>\<open>ParseInt\<close> with base 0 and 64 bits.\<close>

text \<open>\<^verbatim>\<open>lower(c)\<close> is \<^verbatim>\<open>c | ('x' - 'X')\<close>: it sets the bit of value 32.\<close>

definition lower :: "char \<Rightarrow> char" where
  "lower c = (if (of_char c :: int) div 32 mod 2 = 0 then char_of (of_char c + (32::int)) else c)"

definition digitVal :: "char \<Rightarrow> int option" where
  "digitVal c =
     (if c \<in> set decimalDigits then Some (of_char c - 48)
      else if lower c \<in> set ''abcdefghijklmnopqrstuvwxyz'' then Some (of_char (lower c) - 97 + 10)
      else None)"

datatype saw = SawStart | SawDigit | SawUnderscore | SawOther

fun underscoreLoop :: "bool \<Rightarrow> saw \<Rightarrow> string \<Rightarrow> bool" where
  "underscoreLoop hex sw [] = (sw \<noteq> SawUnderscore)"
| "underscoreLoop hex sw (c # cs) =
     (if c \<in> set decimalDigits \<or> (hex \<and> lower c \<in> set ''abcdef'') then underscoreLoop hex SawDigit cs
      else if c = CHR ''_'' then (if sw \<noteq> SawDigit then False else underscoreLoop hex SawUnderscore cs)
      else if sw = SawUnderscore then False
      else underscoreLoop hex SawOther cs)"

definition underscoreOK :: "string \<Rightarrow> bool" where
  "underscoreOK s0 =
     (let s = (case s0 of c # cs \<Rightarrow> if c = CHR ''-'' \<or> c = CHR ''+'' then cs else s0 | [] \<Rightarrow> s0) in
      case s of
        c # d # cs \<Rightarrow>
          if c = CHR ''0'' \<and> lower d \<in> set ''box''
          then underscoreLoop (lower d = CHR ''x'') SawDigit cs
          else underscoreLoop False SawStart s
      | _ \<Rightarrow> underscoreLoop False SawStart s)"

fun digitsLoop :: "int \<Rightarrow> int \<Rightarrow> string \<Rightarrow> int option" where
  "digitsLoop base n [] = Some n"
| "digitsLoop base n (c # cs) =
     (if c = CHR ''_'' then digitsLoop base n cs
      else (case digitVal c of
              None \<Rightarrow> None
            | Some d \<Rightarrow> if d \<ge> base then None else digitsLoop base (n * base + d) cs))"

definition ParseUint :: "string \<Rightarrow> int option" where
  "ParseUint s =
     (case s of
        [] \<Rightarrow> None
      | c # cs \<Rightarrow>
          (case (if c = CHR ''0'' then
                   (if length s \<ge> 3 \<and> lower (s ! 1) = CHR ''b'' then digitsLoop 2 0 (drop 2 s)
                    else if length s \<ge> 3 \<and> lower (s ! 1) = CHR ''o'' then digitsLoop 8 0 (drop 2 s)
                    else if length s \<ge> 3 \<and> lower (s ! 1) = CHR ''x'' then digitsLoop 16 0 (drop 2 s)
                    else digitsLoop 8 0 cs)
                 else digitsLoop 10 0 s) of
             None \<Rightarrow> None
           | Some n \<Rightarrow>
               if n \<ge> 2 ^ 64 then None
               else if CHR ''_'' \<in> set s \<and> \<not> underscoreOK s then None
               else Some n))"

definition ParseInt :: "string \<Rightarrow> (64 word) option" where
  "ParseInt s0 =
     (case s0 of
        [] \<Rightarrow> None
      | c # cs \<Rightarrow>
          let neg = (c = CHR ''-'');
              s = (if c = CHR ''+'' \<or> c = CHR ''-'' then cs else s0)
          in (case ParseUint s of
                None \<Rightarrow> None
              | Some un \<Rightarrow>
                  if \<not> neg \<and> un \<ge> 2 ^ 63 then None
                  else if neg \<and> un > 2 ^ 63 then None
                  else Some (if neg then word_of_int (- un) else word_of_int un)))"

definition Sscan :: "string \<Rightarrow> (64 word) option" where
  "Sscan token = (case scanToken token of None \<Rightarrow> None | Some tok \<Rightarrow> ParseInt tok)"

section \<open>Reader\<close>

definition atom :: "string \<Rightarrow> val" where
  "atom token = (case Sscan token of Some n \<Rightarrow> Integer n | None \<Rightarrow> Symbol token)"

text \<open>
  \<open>readFromTokens\<close> and the loop of its list case, \<open>readList\<close>, which carries the list
  read so far; the equations split on the token sequence being empty, which is the test
  \<^verbatim>\<open>len(tokens) == 0\<close> in \<open>readFromTokens\<close> and the range check of \<^verbatim>\<open>tokens[0]\<close> in the
  loop head, where the source has no test of its own. Every call
  of \<open>readFromTokens\<close> that returns has consumed a token (lemma \<open>readFromTokens_shorter\<close>),
  which is what makes the loop terminate; the test on the lengths in \<open>readList\<close> states
  this for the termination proof and never fails (lemma \<open>readList_unfold\<close>).
\<close>

function readFromTokens :: "string list \<Rightarrow> panic + (val \<times> string list)"
  and readList :: "val list \<Rightarrow> string list \<Rightarrow> panic + (val \<times> string list)"
where
  "readFromTokens [] = Inl (Panic ''unexpected EOF while reading'')"
| "readFromTokens (t # ts) =
     (case pop (t # ts) of (token, tokens) \<Rightarrow>
        if ''('' = token then readList [] tokens
        else if '')'' = token then Inl (Panic ''unexpected )'')
        else Inr (atom token, tokens))"
| "readList l [] = Inl IndexOutOfRange"
| "readList l (t # ts) =
     (if t \<noteq> '')'' then
        (case readFromTokens (t # ts) of
           Inl e \<Rightarrow> Inl e
         | Inr (s, tokens) \<Rightarrow>
             if length tokens < length (t # ts) then readList (l @ [s]) tokens
             else Inl IndexOutOfRange)
      else Inr (List l, snd (pop (t # ts))))"
  by pat_completeness auto
termination
  by (relation "measure (\<lambda>x. case x of Inl ts \<Rightarrow> 2 * length ts + 1
                                    | Inr (l, ts) \<Rightarrow> 2 * length ts + 2)")
     (auto simp: pop_def)

definition parse :: "string \<Rightarrow> panic + val" where
  "parse program =
     (let tokens = tokenize program in
      case readFromTokens tokens of Inl e \<Rightarrow> Inl e | Inr (s, _) \<Rightarrow> Inr s)"

section \<open>Environments\<close>

text \<open>
  An \<^verbatim>\<open>Env\<close> is a frame: the map \<open>inner\<close> and the pointer \<open>outer\<close> (\<open>None\<close> for the Go
  \<^verbatim>\<open>nil\<close>). Frames are shared through pointers and updated in place, so they live in a
  store, and \<^verbatim>\<open>newEmptyEnv\<close> takes the next free address. A frame is never freed.
\<close>

record frame =
  inner :: "string \<rightharpoonup> val"
  outer :: "addr option"

record store =
  frames :: "addr \<Rightarrow> frame"
  next_addr :: addr

text \<open>Reading a Go map: a key that is absent reads as the nil interface.\<close>

definition mapIndex :: "(string \<rightharpoonup> val) \<Rightarrow> string \<Rightarrow> val" where
  "mapIndex m k = (case m k of None \<Rightarrow> NilV | Some v \<Rightarrow> v)"

text \<open>The assignment \<^verbatim>\<open>env.inner[str] = v\<close>.\<close>

definition setInner :: "store \<Rightarrow> addr \<Rightarrow> string \<Rightarrow> val \<Rightarrow> store" where
  "setInner st env str v =
     st\<lparr>frames := (frames st)(env := (frames st env)\<lparr>inner := (inner (frames st env))(str \<mapsto> v)\<rparr>)\<rparr>"

definition newEmptyEnv :: "store \<Rightarrow> addr \<times> store" where
  "newEmptyEnv st =
     (next_addr st,
      st\<lparr>frames := (frames st)(next_addr st := \<lparr>inner = Map.empty, outer = None\<rparr>),
         next_addr := Suc (next_addr st)\<rparr>)"

text \<open>
  The loop of \<^verbatim>\<open>newEnv\<close>, \<^verbatim>\<open>env.inner[parms[i]] = args[i]\<close> for every index of
  \<open>parms\<close>, walks both sequences together; \<^verbatim>\<open>args[i]\<close> panics when the arguments run
  out first, and arguments beyond the parameters are never read.
\<close>

fun bindParms :: "string list \<Rightarrow> val list \<Rightarrow> (string \<rightharpoonup> val) \<Rightarrow> panic option \<times> (string \<rightharpoonup> val)" where
  "bindParms [] args m = (None, m)"
| "bindParms (p # ps) [] m = (Some IndexOutOfRange, m)"
| "bindParms (p # ps) (a # as) m = bindParms ps as (m(p \<mapsto> a))"

definition newEnv :: "string list \<Rightarrow> val list \<Rightarrow> addr \<Rightarrow> store \<Rightarrow> (panic + addr) \<times> store" where
  "newEnv parms args out st =
     (case newEmptyEnv st of (env, st1) \<Rightarrow>
        (case bindParms parms args (inner (frames st1 env)) of
           (Some e, m) \<Rightarrow>
             (Inl e, st1\<lparr>frames := (frames st1)(env := \<lparr>inner = m, outer = None\<rparr>)\<rparr>)
         | (None, m) \<Rightarrow>
             (Inr env, st1\<lparr>frames := (frames st1)(env := \<lparr>inner = m, outer = Some out\<rparr>)\<rparr>)))"

text \<open>
  \<^verbatim>\<open>Find\<close> follows the outer pointers. A frame's outer pointer is set once, by
  \<^verbatim>\<open>newEnv\<close>, to a frame that exists already, so it points to a smaller address; the
  test \<open>out < env\<close> states this for the termination proof. On the stores that the
  program builds the test never fails (lemmas \<open>eval_preserves\<close> and \<open>Find_unfold\<close>).
\<close>

function Find :: "store \<Rightarrow> addr \<Rightarrow> string \<Rightarrow> addr" where
  "Find st env v =
     (if mapIndex (inner (frames st env)) v \<noteq> NilV \<or> outer (frames st env) = None then env
      else (case outer (frames st env) of
              Some out \<Rightarrow> if out < env then Find st out v else env
            | None \<Rightarrow> env))"
  by pat_completeness auto
termination
  by (relation "measure (\<lambda>(st, env, v). env)") auto

declare Find.simps [simp del]

definition standardEnv :: "store \<Rightarrow> addr \<times> store" where
  "standardEnv st =
     (case newEmptyEnv st of (env, st) \<Rightarrow>
        let st = setInner st env ''false'' (Boolean False);
            st = setInner st env ''true'' (Boolean True);
            st = setInner st env ''+'' (Primitive PrimAdd)
        in (env, st))"

definition emptyStore :: store where
  "emptyStore = \<lparr>frames = (\<lambda>_. \<lparr>inner = Map.empty, outer = None\<rparr>), next_addr = 0\<rparr>"

text \<open>\<^verbatim>\<open>var globalEnv = standardEnv()\<close>, the first frame of the program.\<close>

definition globalEnv :: addr where
  "globalEnv = fst (standardEnv emptyStore)"

definition initStore :: store where
  "initStore = snd (standardEnv emptyStore)"

section \<open>Evaluator\<close>

definition isFalse :: "val \<Rightarrow> bool \<times> bool" where
  "isFalse x = (case x of Boolean b \<Rightarrow> (\<not> b, True) | _ \<Rightarrow> (\<not> False, False))"

text \<open>The function literal bound to \<^verbatim>\<open>+\<close>; \<^verbatim>\<open>args[0]\<close> and \<^verbatim>\<open>args[1]\<close> are read before
  the two type assertions are tested.\<close>

definition primAdd :: "val list \<Rightarrow> panic + val" where
  "primAdd args =
     (if length args \<le> 0 then Inl IndexOutOfRange
      else if length args \<le> 1 then Inl IndexOutOfRange
      else (case (args ! 0, args ! 1) of
              (Integer n, Integer m) \<Rightarrow> Inr (Integer (n + m))
            | _ \<Rightarrow> Inl (Panic ''+ needs numbers'')))"

fun callPrim :: "prim \<Rightarrow> val list \<Rightarrow> panic + val" where
  "callPrim PrimAdd args = primAdd args"

fun symbolNames :: "val list \<Rightarrow> panic + string list" where
  "symbolNames [] = Inr []"
| "symbolNames (x # xs) =
     (case x of
        Symbol str \<Rightarrow> (case symbolNames xs of Inl e \<Rightarrow> Inl e | Inr strs \<Rightarrow> Inr (str # strs))
      | _ \<Rightarrow> Inl (Panic ''parms needs symbols''))"

definition toStrings :: "val \<Rightarrow> panic + string list" where
  "toStrings parms =
     (case parms of List l \<Rightarrow> symbolNames l | _ \<Rightarrow> Inl (Panic ''parms must be a list''))"

definition newProcedure :: "val \<Rightarrow> val \<Rightarrow> addr \<Rightarrow> panic + val" where
  "newProcedure parms body env =
     (case toStrings parms of Inl e \<Rightarrow> Inl e | Inr strs \<Rightarrow> Inr (Procedure strs body env))"

text \<open>
  An evaluation ends with a value or a panic, and with the store as it is then; \<open>None\<close>
  stands for an evaluation that does not end within the given depth of nested calls of
  \<^verbatim>\<open>eval\<close>. A panic is never recovered, so \<open>andThen\<close> passes it on.
\<close>

type_synonym 'a result = "((panic + 'a) \<times> store) option"

definition andThen :: "'a result \<Rightarrow> ('a \<Rightarrow> store \<Rightarrow> 'b result) \<Rightarrow> 'b result" where
  "andThen r f =
     (case r of
        None \<Rightarrow> None
      | Some (Inl e, st) \<Rightarrow> Some (Inl e, st)
      | Some (Inr v, st) \<Rightarrow> f v st)"

fun makeArgs :: "(val \<Rightarrow> addr \<Rightarrow> store \<Rightarrow> val result) \<Rightarrow> val list \<Rightarrow> addr \<Rightarrow> store \<Rightarrow> (val list) result" where
  "makeArgs ev [] env st = Some (Inr [], st)"
| "makeArgs ev (x # xs) env st =
     andThen (ev x env st) (\<lambda>v st.
     andThen (makeArgs ev xs env st) (\<lambda>vs st. Some (Inr (v # vs), st)))"

text \<open>\<^verbatim>\<open>Procedure.Call\<close>, on the fields of the procedure.\<close>

definition Call :: "(val \<Rightarrow> addr \<Rightarrow> store \<Rightarrow> val result) \<Rightarrow> string list \<Rightarrow> val \<Rightarrow> addr \<Rightarrow> val list \<Rightarrow> store \<Rightarrow> val result" where
  "Call ev parms body penv args st =
     (case newEnv parms args penv st of
        (Inl e, st) \<Rightarrow> Some (Inl e, st)
      | (Inr env, st) \<Rightarrow> ev body env st)"

text \<open>The end of \<^verbatim>\<open>eval\<close>, from the comment \<^verbatim>\<open>(proc arg...)\<close> on.\<close>

definition evalApply :: "(val \<Rightarrow> addr \<Rightarrow> store \<Rightarrow> val result) \<Rightarrow> val list \<Rightarrow> addr \<Rightarrow> store \<Rightarrow> val result" where
  "evalApply ev l env st =
     andThen (ev (l ! 0) env st) (\<lambda>car st.
     andThen (makeArgs ev (drop 1 l) env st) (\<lambda>args st.
       (case car of
          Primitive prim \<Rightarrow> Some (callPrim prim args, st)
        | Procedure parms body penv \<Rightarrow> Call ev parms body penv args st
        | _ \<Rightarrow> Some (Inr NilV, st))))"

text \<open>
  The body of \<^verbatim>\<open>eval\<close> (the variant with environments, \<^verbatim>\<open>set!\<close> and \<^verbatim>\<open>lambda\<close>);
  \<open>ev\<close> stands for its recursive calls. The elements \<^verbatim>\<open>l[1]\<close>, \<^verbatim>\<open>l[2]\<close>, \<^verbatim>\<open>l[3]\<close>
  of a special form are read, with their range checks, before anything is evaluated.
\<close>

definition evalBody :: "(val \<Rightarrow> addr \<Rightarrow> store \<Rightarrow> val result) \<Rightarrow> val \<Rightarrow> addr \<Rightarrow> store \<Rightarrow> val result" where
  "evalBody ev x env st =
     (case x of
        Symbol str \<Rightarrow> Some (Inr (mapIndex (inner (frames st (Find st env str))) str), st)
      | List l \<Rightarrow>
          if length l = 0 then Some (Inl (Panic ''empty list''), st)
          else
            (case l ! 0 of
               Symbol str \<Rightarrow>
                 if str = ''quote'' then
                   (if length l \<le> 1 then Some (Inl IndexOutOfRange, st)
                    else Some (Inr (l ! 1), st))
                 else if str = ''if'' then
                   (if length l \<le> 3 then Some (Inl IndexOutOfRange, st)
                    else
                      andThen (ev (l ! 1) env st) (\<lambda>r st.
                        (case isFalse r of (b, ok) \<Rightarrow>
                           if ok \<and> b then ev (l ! 3) env st else ev (l ! 2) env st)))
                 else if str = ''define'' then
                   (if length l \<le> 2 then Some (Inl IndexOutOfRange, st)
                    else
                      (case l ! 1 of
                         Symbol str \<Rightarrow>
                           andThen (ev (l ! 2) env st) (\<lambda>v st.
                             let st = setInner st env str v
                             in Some (Inr (mapIndex (inner (frames st env)) str), st))
                       | _ \<Rightarrow> Some (Inl (Panic ''define needs a symbol''), st)))
                 else if str = ''set!'' then
                   (if length l \<le> 2 then Some (Inl IndexOutOfRange, st)
                    else
                      (case l ! 1 of
                         Symbol str \<Rightarrow>
                           let e = Find st env str in
                           andThen (ev (l ! 2) env st) (\<lambda>v st.
                             let st = setInner st e str v
                             in Some (Inr (mapIndex (inner (frames st e)) str), st))
                       | _ \<Rightarrow> Some (Inl (Panic ''set! needs a symbol''), st)))
                 else if str = ''lambda'' then
                   (if length l \<le> 2 then Some (Inl IndexOutOfRange, st)
                    else
                      Some (newProcedure (l ! 1) (l ! 2) env, st))
                 else evalApply ev l env st
             | _ \<Rightarrow> evalApply ev l env st)
      | _ \<Rightarrow> Some (Inr x, st))"

primrec eval :: "nat \<Rightarrow> val \<Rightarrow> addr \<Rightarrow> store \<Rightarrow> val result" where
  "eval 0 x env st = None"
| "eval (Suc depth) x env st = evalBody (eval depth) x env st"

section \<open>The calculator variant\<close>

text \<open>
  \<^verbatim>\<open>lispycalc.go\<close> has the same lexer, reader and \<^verbatim>\<open>+\<close>, and an evaluator over one Go
  map: no frames, no \<^verbatim>\<open>set!\<close>, no \<^verbatim>\<open>lambda\<close>. The map is shared and updated in place, so
  the model passes it along. This \<^verbatim>\<open>eval\<close> calls itself on elements of its argument
  only.
\<close>

type_synonym calc_env = "string \<rightharpoonup> val"

definition isFalse_calc :: "val \<Rightarrow> bool \<times> bool" where
  "isFalse_calc x = (case x of Boolean b \<Rightarrow> (b, True) | _ \<Rightarrow> (False, False))"

definition standardEnv_calc :: calc_env where
  "standardEnv_calc =
     (((Map.empty(''false'' \<mapsto> Boolean False))(''true'' \<mapsto> Boolean True))(''+'' \<mapsto> Primitive PrimAdd))"

definition andThen_calc :: "(panic + 'a) \<times> calc_env \<Rightarrow> ('a \<Rightarrow> calc_env \<Rightarrow> (panic + 'b) \<times> calc_env) \<Rightarrow> (panic + 'b) \<times> calc_env" where
  "andThen_calc r f = (case r of (Inl e, env) \<Rightarrow> (Inl e, env) | (Inr v, env) \<Rightarrow> f v env)"

function eval_calc :: "val \<Rightarrow> calc_env \<Rightarrow> (panic + val) \<times> calc_env"
  and makeArgs_calc :: "val list \<Rightarrow> calc_env \<Rightarrow> (panic + val list) \<times> calc_env"
where
  "eval_calc x env =
     (case x of
        Symbol str \<Rightarrow> (Inr (mapIndex env str), env)
      | List l \<Rightarrow>
          if length l = 0 then (Inl (Panic ''empty list''), env)
          else
            (case l ! 0 of
               Symbol str \<Rightarrow>
                 if str = ''quote'' then
                   (if length l \<le> 1 then (Inl IndexOutOfRange, env)
                    else (Inr (l ! 1), env))
                 else if str = ''if'' then
                   (if length l \<le> 3 then (Inl IndexOutOfRange, env)
                    else
                      andThen_calc (eval_calc (l ! 1) env) (\<lambda>r env.
                        (case isFalse_calc r of (b, ok) \<Rightarrow>
                           if ok \<and> \<not> b then eval_calc (l ! 3) env else eval_calc (l ! 2) env)))
                 else if str = ''define'' then
                   (if length l \<le> 2 then (Inl IndexOutOfRange, env)
                    else
                      (case l ! 1 of
                         Symbol str \<Rightarrow>
                           andThen_calc (eval_calc (l ! 2) env) (\<lambda>v env.
                             let env = env(str \<mapsto> v)
                             in (Inr (mapIndex env str), env))
                       | _ \<Rightarrow> (Inl (Panic ''define needs a symbol''), env)))
                 else
                   andThen_calc (eval_calc (l ! 0) env) (\<lambda>car env.
                     (case car of
                        Primitive proc \<Rightarrow>
                          andThen_calc (makeArgs_calc (drop 1 l) env) (\<lambda>args env.
                            (callPrim proc args, env))
                      | _ \<Rightarrow> (Inl (Panic ''not a procedure''), env)))
             | _ \<Rightarrow> (Inr NilV, env))
      | _ \<Rightarrow> (Inr x, env))"
| "makeArgs_calc [] env = (Inr [], env)"
| "makeArgs_calc (x # xs) env =
     andThen_calc (eval_calc x env) (\<lambda>v env.
     andThen_calc (makeArgs_calc xs env) (\<lambda>vs env. (Inr (v # vs), env)))"
  by pat_completeness
     (simp_all only: sum.inject prod.inject sum.distinct list.distinct list.inject simp_thms)
termination
proof -
  have nth: "i < length l \<Longrightarrow> size (l ! i) < Suc (size_list size l)" for i and l :: "val list"
  proof (induction l arbitrary: i)
    case Nil
    then show ?case by simp
  next
    case (Cons a l)
    show ?case
    proof (cases i)
      case 0
      then show ?thesis by simp
    next
      case (Suc j)
      with Cons.prems have "j < length l" by simp
      from Cons.IH [OF this] show ?thesis using Suc by simp
    qed
  qed
  have tail: "size_list size (drop 1 l) < Suc (size_list size l)" for l :: "val list"
    by (cases l) simp_all
  show ?thesis
  proof (relation "measure (\<lambda>a. case a of Inl (x, env) \<Rightarrow> size x | Inr (l, env) \<Rightarrow> size_list size l)",
         goal_cases)
    case 1
    show ?case by simp
  next
    case (2 x env l str)
    then show ?case using nth [of 1 l] by simp
  next
    case (3 x env l str r envr b ok)
    then show ?case using nth [of 3 l] by simp
  next
    case (4 x env l str r envr b ok)
    then show ?case using nth [of 2 l] by simp
  next
    case (5 x env l str s)
    then show ?case using nth [of 2 l] by simp
  next
    case (6 x env l str)
    then show ?case using nth [of 0 l] by simp
  next
    case (7 x env l str car envc proc)
    then show ?case using tail [of l] by simp
  next
    case (8 x xs env)
    then show ?case by simp
  next
    case (9 x xs env v envv)
    then show ?case by simp
  qed
qed

declare eval_calc.simps [simp del]

section \<open>Notions used in the statements\<close>

text \<open>
  The frames that \<^verbatim>\<open>Find\<close> can visit from \<open>env\<close>: \<open>env\<close> itself, its outer frame, and
  so on to the root, which comes last.
\<close>

function frameChain :: "store \<Rightarrow> addr \<Rightarrow> addr list" where
  "frameChain st env =
     (case outer (frames st env) of
        None \<Rightarrow> [env]
      | Some out \<Rightarrow> if out < env then env # frameChain st out else [env])"
  by pat_completeness auto
termination
  by (relation "measure (\<lambda>(st, env). env)") auto

declare frameChain.simps [simp del]

text \<open>A name is unbound from \<open>env\<close> when no frame of the chain holds a value for it
  (\<^verbatim>\<open>Find\<close> tests \<^verbatim>\<open>env.inner[v] != nil\<close>).\<close>

definition unboundIn :: "store \<Rightarrow> addr \<Rightarrow> string \<Rightarrow> bool" where
  "unboundIn st env name =
     list_all (\<lambda>a. mapIndex (inner (frames st a)) name = NilV) (frameChain st env)"

definition isInteger :: "val \<Rightarrow> bool" where
  "isInteger x = (case x of Integer n \<Rightarrow> True | _ \<Rightarrow> False)"

definition specialForms :: "string list" where
  "specialForms = [''quote'', ''if'', ''define'', ''set!'', ''lambda'']"

text \<open>The value or panic of a result, and its store.\<close>

definition resultOf :: "'a result \<Rightarrow> (panic + 'a) option" where
  "resultOf r = map_option fst r"

definition storeOf :: "'a result \<Rightarrow> store option" where
  "storeOf r = map_option snd r"

text \<open>What a frame holds for a name in the store of a result.\<close>

definition bindingAfter :: "'a result \<Rightarrow> addr \<Rightarrow> string \<Rightarrow> val option option" where
  "bindingAfter r env name = map_option (\<lambda>st. inner (frames st env) name) (storeOf r)"

text \<open>A store in which a procedure body runs: the global frame holds \<open>a = 10\<close>, and frame 1
  is the frame of a call, with the global frame as its outer frame.\<close>

definition callStore :: store where
  "callStore = snd (newEnv [] [] globalEnv (setInner initStore globalEnv ''a'' (Integer 10)))"

text \<open>
  The stores that the program builds. Every procedure value holds the address of a frame
  that exists (\<open>envsBelow\<close>, for the values inside a value), and every outer pointer of
  a frame points to a frame made before it (\<open>storeOK\<close>). \<open>okAfter\<close> says this of a
  result, and \<open>preserves\<close> of an evaluator.
\<close>

fun envsBelow :: "addr \<Rightarrow> val \<Rightarrow> bool" where
  "envsBelow k (List l) = list_all (envsBelow k) l"
| "envsBelow k (Procedure parms body penv) = (penv < k \<and> envsBelow k body)"
| "envsBelow k v = True"

definition storeOK :: "store \<Rightarrow> bool" where
  "storeOK st =
     (\<forall>a < next_addr st.
        (case outer (frames st a) of None \<Rightarrow> True | Some b \<Rightarrow> b < a) \<and>
        (\<forall>name v. inner (frames st a) name = Some v \<longrightarrow> envsBelow (next_addr st) v))"

definition okAfter :: "store \<Rightarrow> (panic + val) \<times> store \<Rightarrow> bool" where
  "okAfter st q =
     (storeOK (snd q) \<and> next_addr st \<le> next_addr (snd q) \<and>
      (case fst q of Inl e \<Rightarrow> True | Inr v \<Rightarrow> envsBelow (next_addr (snd q)) v))"

definition preserves :: "(val \<Rightarrow> addr \<Rightarrow> store \<Rightarrow> val result) \<Rightarrow> bool" where
  "preserves ev =
     (\<forall>x env st q.
        storeOK st \<longrightarrow> env < next_addr st \<longrightarrow> envsBelow (next_addr st) x \<longrightarrow>
        ev x env st = Some q \<longrightarrow> okAfter st q)"

section \<open>The reader consumes tokens\<close>

lemma readFromTokens_shorter: "readFromTokens ts = Inr (v, rest) \<Longrightarrow> length rest < length ts"
  and readList_shorter: "readList l ts' = Inr (v', rest') \<Longrightarrow> length rest' < length ts'"
proof (induction ts and l ts' arbitrary: v rest and v' rest' rule: readFromTokens_readList.induct)
  case 1
  then show ?case by simp
next
  case (2 t ts)
  then show ?case
    by (auto simp: pop_def less_Suc_eq split: if_splits dest!: meta_spec)
next
  case (3 l)
  then show ?case by simp
next
  case (4 l t ts)
  show ?case
  proof (cases "t = '')''")
    case True
    with "4.prems" show ?thesis by (auto simp: pop_def)
  next
    case False
    with "4.prems" obtain s tokens where r: "readFromTokens (t # ts) = Inr (s, tokens)"
      and l: "length tokens < length (t # ts)" and rl: "readList (l @ [s]) tokens = Inr (v', rest')"
      by (auto split: sum.splits prod.splits if_splits)
    from "4.IH"(2) [OF False r _ l rl] have "length rest' < length tokens" by simp
    with l show ?thesis by simp
  qed
qed

lemma readList_unfold:
  "readList l (t # ts) =
     (if t \<noteq> '')'' then
        (case readFromTokens (t # ts) of
           Inl e \<Rightarrow> Inl e
         | Inr (s, tokens) \<Rightarrow> readList (l @ [s]) tokens)
      else Inr (List l, ts))"
  using readFromTokens_shorter [of "t # ts"]
  by (auto simp: pop_def split: sum.splits prod.splits)

lemma readFromTokens_append: "readFromTokens ts = Inr (v, rest) \<Longrightarrow> readFromTokens (ts @ extra) = Inr (v, rest @ extra)"
  and readList_append: "readList l ts' = Inr (v', rest') \<Longrightarrow> readList l (ts' @ extra) = Inr (v', rest' @ extra)"
proof (induction ts and l ts' arbitrary: v rest and v' rest' rule: readFromTokens_readList.induct)
  case 1
  then show ?case by simp
next
  case (2 t ts)
  then show ?case
    by (auto simp: pop_def split: if_splits)
next
  case (3 l)
  then show ?case by simp
next
  case (4 l t ts)
  show ?case
  proof (cases "t = '')''")
    case True
    with "4.prems" show ?thesis by (simp add: pop_def)
  next
    case False
    with "4.prems" obtain s tokens where r: "readFromTokens (t # ts) = Inr (s, tokens)"
      and l: "length tokens < length (t # ts)" and rl: "readList (l @ [s]) tokens = Inr (v', rest')"
      by (auto split: sum.splits prod.splits if_splits)
    from "4.IH"(1) [OF False r] have r': "readFromTokens (t # ts @ extra) = Inr (s, tokens @ extra)" by simp
    from "4.IH"(2) [OF False r _ l rl] have "readList (l @ [s]) (tokens @ extra) = Inr (v', rest' @ extra)" by simp
    with r' False l show ?thesis by simp
  qed
qed

lemma splitRuns_nonempty: "splitRuns acc s \<noteq> []"
  by (induction acc s rule: splitRuns.induct) auto

lemma tokenize_nonempty: "tokenize chars \<noteq> []"
  by (simp add: tokenize_def Split_def splitRuns_nonempty)

text \<open>The empty token arises for the empty input only: every other input has tokens
  that are all non-empty.\<close>

lemma splitRuns_pieces:
  "acc \<noteq> [] \<or> (s \<noteq> [] \<and> \<not> isReSpace (hd s)) \<Longrightarrow> s = [] \<or> \<not> isReSpace (last s) \<Longrightarrow>
     [] \<notin> set (splitRuns acc s)"
  by (induction acc s rule: splitRuns.induct) auto

lemma TrimSpace_ends:
  assumes "TrimSpace s \<noteq> []"
  shows "\<not> isSpace (hd (TrimSpace s)) \<and> \<not> isSpace (last (TrimSpace s))"
proof -
  let ?u = "dropWhile isSpace s"
  let ?t = "rev (dropWhile isSpace (rev ?u))"
  have t: "TrimSpace s = ?t" by (simp add: TrimSpace_def)
  have "rev (takeWhile isSpace (rev ?u) @ dropWhile isSpace (rev ?u)) = ?u" by simp
  then have split: "?t @ rev (takeWhile isSpace (rev ?u)) = ?u" by (simp del: takeWhile_dropWhile_id)
  from assms t have ne: "?t \<noteq> []" by simp
  with split have "hd ?u = hd ?t" by (metis hd_append2)
  moreover from ne split have "?u \<noteq> []" by (metis append_is_Nil_conv)
  then have "\<not> isSpace (hd ?u)" by (rule hd_dropWhile)
  ultimately have first: "\<not> isSpace (hd ?t)" by simp
  from ne have "dropWhile isSpace (rev ?u) \<noteq> []" by simp
  then have "\<not> isSpace (hd (dropWhile isSpace (rev ?u)))" by (rule hd_dropWhile)
  with ne have "\<not> isSpace (last ?t)" by (simp add: last_rev)
  with first t show ?thesis by simp
qed

lemma isReSpace_isSpace: "isReSpace c \<Longrightarrow> isSpace c"
  by (auto simp: isReSpace_def isSpace_def)

lemma tokenize_no_empty_token:
  assumes "tokenize chars \<noteq> ['''']"
  shows "'''' \<notin> set (tokenize chars)"
proof -
  let ?s = "TrimSpace (Replace (Replace chars (CHR ''('') '' ( '') (CHR '')'') '' ) '')"
  have t: "tokenize chars = splitRuns [] ?s" by (simp add: tokenize_def Split_def)
  with assms have ne: "?s \<noteq> []" by auto
  from TrimSpace_ends [OF ne [unfolded TrimSpace_def [symmetric]]]
  have "\<not> isReSpace (hd ?s)" and "\<not> isReSpace (last ?s)"
    by (auto dest: isReSpace_isSpace)
  with ne have "[] \<notin> set (splitRuns [] ?s)" by (intro splitRuns_pieces) auto
  with t show ?thesis by simp
qed

lemma readFromTokens_no_EOF: "ts \<noteq> [] \<Longrightarrow> readFromTokens ts \<noteq> Inl (Panic ''unexpected EOF while reading'')"
  and readList_no_EOF: "readList l ts' \<noteq> Inl (Panic ''unexpected EOF while reading'')"
proof (induction ts and l ts' rule: readFromTokens_readList.induct)
  case 1
  then show ?case by simp
next
  case (2 t ts)
  then show ?case by (auto simp: pop_def)
next
  case (3 l)
  then show ?case by simp
next
  case (4 l t ts)
  then show ?case by (auto split: sum.splits prod.splits)
qed

lemma parse_no_EOF: "parse program \<noteq> Inl (Panic ''unexpected EOF while reading'')"
  using readFromTokens_no_EOF [OF tokenize_nonempty, of program]
  by (auto simp: parse_def split: sum.splits)

section \<open>Maps and frames\<close>

lemma mapIndex_upd: "mapIndex (m(k \<mapsto> v)) k' = (if k' = k then v else mapIndex m k')"
  by (simp add: mapIndex_def)

lemma mapIndex_setInner: "mapIndex (inner (frames (setInner st e str v) e)) str = v"
  by (simp add: setInner_def mapIndex_def)

lemma setInner_frames:
  "frames (setInner st env name v) a =
     (if a = env then (frames st env)\<lparr>inner := (inner (frames st env))(name \<mapsto> v)\<rparr> else frames st a)"
  by (simp add: setInner_def)

lemma setInner_next_addr: "next_addr (setInner st env name v) = next_addr st"
  by (simp add: setInner_def)

section \<open>The depth bound\<close>

text \<open>
  A result that \<open>eval\<close> reaches within some depth is the result at every greater depth:
  the bound only cuts evaluations off, it never changes what they return.
\<close>

lemma andThen_Some:
  "andThen m f = Some r \<longleftrightarrow>
     (\<exists>e st. m = Some (Inl e, st) \<and> r = (Inl e, st)) \<or> (\<exists>v st. m = Some (Inr v, st) \<and> f v st = Some r)"
  by (auto simp: andThen_def split: option.splits sum.splits prod.splits)

lemma andThen_mono:
  assumes "andThen m f = Some r"
    and "\<And>q. m = Some q \<Longrightarrow> m' = Some q"
    and "\<And>v st. f v st = Some r \<Longrightarrow> f' v st = Some r"
  shows "andThen m' f' = Some r"
  using assms by (auto simp: andThen_Some)

lemma makeArgs_mono:
  assumes "\<And>x env st r. ev x env st = Some r \<Longrightarrow> ev' x env st = Some r"
  shows "makeArgs ev l env st = Some r \<Longrightarrow> makeArgs ev' l env st = Some r"
proof (induction l arbitrary: st r)
  case Nil
  then show ?case by simp
next
  case (Cons x xs)
  from Cons.prems show ?case
    apply simp
    apply (erule andThen_mono)
     apply (erule assms)
    apply (erule andThen_mono)
     apply (erule Cons.IH)
    apply assumption
    done
qed

lemma Call_mono:
  assumes "\<And>x env st r. ev x env st = Some r \<Longrightarrow> ev' x env st = Some r"
  shows "Call ev parms body penv args st = Some r \<Longrightarrow> Call ev' parms body penv args st = Some r"
  by (auto simp: Call_def split: prod.splits sum.splits intro: assms)

lemma evalApply_mono:
  assumes ev: "\<And>x env st r. ev x env st = Some r \<Longrightarrow> ev' x env st = Some r"
    and a: "evalApply ev l env st = Some r"
  shows "evalApply ev' l env st = Some r"
proof -
  have args: "makeArgs ev xs env st = Some q \<Longrightarrow> makeArgs ev' xs env st = Some q" for xs st q
    by (rule makeArgs_mono [of ev ev', OF ev])
  have call: "Call ev parms body penv args st = Some r \<Longrightarrow> Call ev' parms body penv args st = Some r"
    for parms body penv args st
    by (rule Call_mono [of ev ev', OF ev])
  let ?k = "\<lambda>ev car args st. case car of
               Primitive prim \<Rightarrow> Some (callPrim prim args, st)
             | Procedure parms body penv \<Rightarrow> Call ev parms body penv args st
             | _ \<Rightarrow> Some (Inr NilV, st)"
  have k: "?k ev car args st = Some r \<Longrightarrow> ?k ev' car args st = Some r" for car args st
    by (cases car) (simp_all add: call)
  have inner: "andThen (makeArgs ev (drop 1 l) env st) (?k ev car) = Some r \<Longrightarrow>
               andThen (makeArgs ev' (drop 1 l) env st) (?k ev' car) = Some r" for car st
    by (erule andThen_mono) (erule args, erule k)
  from a have "andThen (ev (l ! 0) env st) (\<lambda>car st. andThen (makeArgs ev (drop 1 l) env st) (?k ev car)) = Some r"
    by (simp add: evalApply_def)
  then have "andThen (ev' (l ! 0) env st) (\<lambda>car st. andThen (makeArgs ev' (drop 1 l) env st) (?k ev' car)) = Some r"
    by (rule andThen_mono) (erule ev, erule inner)
  then show ?thesis by (simp add: evalApply_def)
qed

lemma andThen_mono_left:
  "andThen m f = Some r \<Longrightarrow> (\<And>q. m = Some q \<Longrightarrow> m' = Some q) \<Longrightarrow> andThen m' f = Some r"
  by (auto simp: andThen_Some)

lemma evalBody_mono:
  assumes ev: "\<And>x env st r. ev x env st = Some r \<Longrightarrow> ev' x env st = Some r"
    and b: "evalBody ev x env st = Some r"
  shows "evalBody ev' x env st = Some r"
proof (cases x)
  case (List l)
  show ?thesis
  proof (cases "l = []")
    case True
    with b List show ?thesis by (simp add: evalBody_def)
  next
    case False
    note ne = this
    have app: "evalApply ev l env st = Some r \<Longrightarrow> evalApply ev' l env st = Some r"
      by (rule evalApply_mono [of ev ev', OF ev])
    show ?thesis
    proof (cases "l ! 0")
      case (Symbol str)
      consider (is_quote) "str = ''quote''" | (is_if) "str = ''if''" | (is_define) "str = ''define''"
        | (is_set) "str = ''set!''" | (is_lambda) "str = ''lambda''"
        | (other) "str \<notin> set specialForms"
        by (auto simp: specialForms_def)
      then show ?thesis
      proof cases
        case is_quote
        with b List ne Symbol show ?thesis by (simp add: evalBody_def)
      next
        case is_if
        show ?thesis
        proof (cases "length l \<le> 3")
          case True
          with b List ne Symbol is_if show ?thesis by (simp add: evalBody_def)
        next
          case False
          with b List ne Symbol is_if
          have "andThen (ev (l ! 1) env st) (\<lambda>r st.
                  (case isFalse r of (b, ok) \<Rightarrow>
                     if ok \<and> b then ev (l ! 3) env st else ev (l ! 2) env st)) = Some r"
            by (simp add: evalBody_def)
          then have "andThen (ev' (l ! 1) env st) (\<lambda>r st.
                  (case isFalse r of (b, ok) \<Rightarrow>
                     if ok \<and> b then ev' (l ! 3) env st else ev' (l ! 2) env st)) = Some r"
            by (rule andThen_mono) (auto split: prod.splits if_splits intro: ev)
          with False List ne Symbol is_if show ?thesis by (simp add: evalBody_def)
        qed
      next
        case is_define
        show ?thesis
        proof (cases "length l \<le> 2")
          case True
          with b List ne Symbol is_define show ?thesis by (simp add: evalBody_def)
        next
          case False
          show ?thesis
          proof (cases "l ! 1")
            case inner: (Symbol name)
            with b List ne Symbol is_define False
            have "andThen (ev (l ! 2) env st) (\<lambda>v st.
                    let st = setInner st env name v
                    in Some (Inr (mapIndex (inner (frames st env)) name), st)) = Some r"
              by (simp add: evalBody_def)
            then have "andThen (ev' (l ! 2) env st) (\<lambda>v st.
                    let st = setInner st env name v
                    in Some (Inr (mapIndex (inner (frames st env)) name), st)) = Some r"
              by (rule andThen_mono_left) (rule ev)
            with inner List ne Symbol is_define False show ?thesis by (simp add: evalBody_def)
          qed (use b List ne Symbol is_define False in \<open>simp_all add: evalBody_def\<close>)
        qed
      next
        case is_set
        show ?thesis
        proof (cases "length l \<le> 2")
          case True
          with b List ne Symbol is_set show ?thesis by (simp add: evalBody_def)
        next
          case False
          show ?thesis
          proof (cases "l ! 1")
            case inner: (Symbol name)
            with b List ne Symbol is_set False
            have "andThen (ev (l ! 2) env st) (\<lambda>v st'.
                    let st' = setInner st' (Find st env name) name v
                    in Some (Inr (mapIndex (inner (frames st' (Find st env name))) name), st')) = Some r"
              by (simp add: evalBody_def Let_def)
            then have "andThen (ev' (l ! 2) env st) (\<lambda>v st'.
                    let st' = setInner st' (Find st env name) name v
                    in Some (Inr (mapIndex (inner (frames st' (Find st env name))) name), st')) = Some r"
              by (rule andThen_mono_left) (rule ev)
            with inner List ne Symbol is_set False show ?thesis by (simp add: evalBody_def Let_def)
          qed (use b List ne Symbol is_set False in \<open>simp_all add: evalBody_def\<close>)
        qed
      next
        case is_lambda
        with b List ne Symbol show ?thesis by (simp add: evalBody_def)
      next
        case other
        with b List ne Symbol show ?thesis
          by (auto simp: evalBody_def specialForms_def intro: app)
      qed
    qed (use b List ne app in \<open>simp_all add: evalBody_def\<close>)
  qed
qed (use b in \<open>simp_all add: evalBody_def\<close>)

lemma eval_Suc_mono: "eval n x env st = Some r \<Longrightarrow> eval (Suc n) x env st = Some r"
proof (induction n arbitrary: x env st r)
  case 0
  then show ?case by simp
next
  case (Suc n)
  from Suc.prems have "evalBody (eval n) x env st = Some r" by simp
  then have "evalBody (eval (Suc n)) x env st = Some r"
    by (rule evalBody_mono [rotated]) (rule Suc.IH)
  then show ?case by simp
qed

lemma eval_mono: "eval n x env st = Some r \<Longrightarrow> n \<le> m \<Longrightarrow> eval m x env st = Some r"
  by (induction m) (auto simp: le_Suc_eq dest: eval_Suc_mono simp del: eval.simps)

lemma eval_deterministic:
  assumes "eval n x env st = Some r" and "eval m x env st = Some r'"
  shows "r = r'"
proof -
  from assms(1) have "eval (max n m) x env st = Some r" by (rule eval_mono) simp
  moreover from assms(2) have "eval (max n m) x env st = Some r'" by (rule eval_mono) simp
  ultimately show ?thesis by simp
qed

section \<open>Outer pointers point to older frames\<close>

text \<open>
  Evaluation keeps the store well formed, so the test \<open>out < env\<close> in \<open>Find\<close> never
  fails on a store of the program: there \<open>Find\<close> is the search of the source
  (lemma \<open>Find_unfold\<close>).
\<close>

lemma envsBelow_mono: "envsBelow k v \<Longrightarrow> k \<le> k' \<Longrightarrow> envsBelow k' v"
  by (induction k v rule: envsBelow.induct) (auto simp: list_all_iff)

lemma envsBelow_Suc: "envsBelow k v \<Longrightarrow> envsBelow (Suc k) v"
  by (erule envsBelow_mono) simp

lemma envsBelow_nth: "envsBelow k (List l) \<Longrightarrow> i < length l \<Longrightarrow> envsBelow k (l ! i)"
  by (simp add: list_all_length)

lemma envsBelow_drop: "envsBelow k (List l) \<Longrightarrow> envsBelow k (List (drop n l))"
  by (auto simp: list_all_iff dest: in_set_dropD)

lemma Find_le: "Find st env v \<le> env"
proof (induction st env v rule: Find.induct)
  case (1 st env v)
  show ?case
  proof (cases "mapIndex (inner (frames st env)) v \<noteq> NilV \<or> outer (frames st env) = None")
    case True
    then show ?thesis by (subst Find.simps) simp
  next
    case False
    then obtain out where out: "outer (frames st env) = Some out" by auto
    show ?thesis
    proof (cases "out < env")
      case True
      from "1" [OF False out True] have "Find st out v \<le> out" .
      with True False out show ?thesis by (subst Find.simps) simp
    next
      case False
      with out show ?thesis by (subst Find.simps) simp
    qed
  qed
qed

lemma storeOK_lookup:
  "storeOK st \<Longrightarrow> a < next_addr st \<Longrightarrow> envsBelow (next_addr st) (mapIndex (inner (frames st a)) name)"
  by (auto simp: storeOK_def mapIndex_def split: option.splits)

lemma storeOK_setInner:
  "storeOK st \<Longrightarrow> a < next_addr st \<Longrightarrow> envsBelow (next_addr st) v \<Longrightarrow> storeOK (setInner st a name v)"
  by (auto simp: storeOK_def setInner_def)

lemma bindParms_values:
  "bindParms parms args m = (e, m') \<Longrightarrow> m' name = Some v \<Longrightarrow> m name = Some v \<or> v \<in> set args"
  by (induction parms args m rule: bindParms.induct) (auto split: if_splits)

lemma bindParms_panic: "bindParms parms args m = (Some p, m') \<Longrightarrow> p = IndexOutOfRange"
  by (induction parms args m rule: bindParms.induct) auto

lemma storeOK_newEnv:
  assumes "storeOK st" and "penv < next_addr st" and "list_all (envsBelow (next_addr st)) args"
    and "newEnv parms args penv st = (r, st')"
  shows "storeOK st' \<and> next_addr st' = Suc (next_addr st) \<and> (r = Inl IndexOutOfRange \<or> r = Inr (next_addr st))"
proof -
  obtain e m where b: "bindParms parms args Map.empty = (e, m)" by (cases "bindParms parms args Map.empty")
  have vals: "envsBelow (Suc (next_addr st)) v" if "m name = Some v" for name v
    using bindParms_values [OF b that] assms(3)
    by (auto simp: list_all_iff intro: envsBelow_Suc)
  have old: "envsBelow (Suc (next_addr st)) v" if "a < next_addr st" "inner (frames st a) name = Some v" for a name v
    using assms(1) that by (auto simp: storeOK_def intro: envsBelow_Suc)
  have outer: "(case outer (frames st a) of None \<Rightarrow> True | Some b \<Rightarrow> b < a)" if "a < next_addr st" for a
    using assms(1) that by (simp add: storeOK_def)
  show ?thesis
  proof (cases e)
    case None
    with b assms(4) have st': "st' = st\<lparr>frames := (frames st)(next_addr st := \<lparr>inner = m, outer = Some penv\<rparr>),
           next_addr := Suc (next_addr st)\<rparr>" and r: "r = Inr (next_addr st)"
      by (auto simp: newEnv_def newEmptyEnv_def)
    have "storeOK st'"
      unfolding storeOK_def st' using vals old outer assms(2)
      by (auto simp: less_Suc_eq)
    with st' r show ?thesis by simp
  next
    case (Some p)
    with b have p: "p = IndexOutOfRange" by (auto dest: bindParms_panic)
    from Some b assms(4) have st': "st' = st\<lparr>frames := (frames st)(next_addr st := \<lparr>inner = m, outer = None\<rparr>),
           next_addr := Suc (next_addr st)\<rparr>" and r: "r = Inl p"
      by (auto simp: newEnv_def newEmptyEnv_def)
    have "storeOK st'"
      unfolding storeOK_def st' using vals old outer
      by (auto simp: less_Suc_eq)
    with st' r p show ?thesis by simp
  qed
qed

lemma preserves_okAfter:
  assumes "preserves ev" and "storeOK st" and "env < next_addr st" and "envsBelow (next_addr st) x"
    and "ev x env st = Some q"
  shows "okAfter st q"
proof -
  from assms(1) have "storeOK st \<longrightarrow> env < next_addr st \<longrightarrow> envsBelow (next_addr st) x \<longrightarrow>
        ev x env st = Some q \<longrightarrow> okAfter st q"
    unfolding preserves_def by (elim allE)
  with assms(2-5) show ?thesis by simp
qed

lemma preservesD:
  assumes "preserves ev" and "storeOK st" and "env < next_addr st" and "envsBelow (next_addr st) x"
    and "ev x env st = Some (r, st')"
  shows "storeOK st'" and "next_addr st \<le> next_addr st'"
    and "r = Inr v \<Longrightarrow> envsBelow (next_addr st') v"
  using preserves_okAfter [OF assms] by (simp_all add: okAfter_def)

lemma okAfter_panic: "storeOK st \<Longrightarrow> okAfter st (Inl e, st)"
  by (simp add: okAfter_def)

lemma okAfter_value: "storeOK st \<Longrightarrow> envsBelow (next_addr st) v \<Longrightarrow> okAfter st (Inr v, st)"
  by (simp add: okAfter_def)

lemma okAfter_trans: "next_addr st \<le> next_addr st1 \<Longrightarrow> okAfter st1 q \<Longrightarrow> okAfter st q"
  by (simp add: okAfter_def)

lemma makeArgs_preserves:
  assumes ev: "preserves ev"
  shows "storeOK st \<Longrightarrow> env < next_addr st \<Longrightarrow> list_all (envsBelow (next_addr st)) l \<Longrightarrow>
         makeArgs ev l env st = Some (r, st') \<Longrightarrow>
           storeOK st' \<and> next_addr st \<le> next_addr st' \<and>
           (\<forall>vs. r = Inr vs \<longrightarrow> list_all (envsBelow (next_addr st')) vs)"
proof (induction l arbitrary: st r st')
  case Nil
  then show ?case by auto
next
  case (Cons x xs)
  from Cons.prems(4) consider
      (head_panic) e where "ev x env st = Some (Inl e, st')" "r = Inl e"
    | (head_value) v st1 where "ev x env st = Some (Inr v, st1)"
        "andThen (makeArgs ev xs env st1) (\<lambda>vs st. Some (Inr (v # vs), st)) = Some (r, st')"
    by (auto simp: andThen_Some)
  then show ?case
  proof cases
    case head_panic
    from preservesD(1,2) [OF ev Cons.prems(1,2) _ head_panic(1)] Cons.prems(3) head_panic(2)
    show ?thesis by simp
  next
    case head_value
    from Cons.prems(3) have x: "envsBelow (next_addr st) x" and xs: "list_all (envsBelow (next_addr st)) xs"
      by simp_all
    note p = preservesD [OF ev Cons.prems(1,2) x head_value(1)]
    from p(2) xs have xs1: "list_all (envsBelow (next_addr st1)) xs"
      by (auto simp: list_all_iff intro: envsBelow_mono)
    from p(2) Cons.prems(2) have env1: "env < next_addr st1" by simp
    from head_value(2) consider
        (tail_panic) e where "makeArgs ev xs env st1 = Some (Inl e, st')" "r = Inl e"
      | (tail_value) vs where "makeArgs ev xs env st1 = Some (Inr vs, st')" "r = Inr (v # vs)"
      by (auto simp: andThen_Some)
    then show ?thesis
    proof cases
      case tail_panic
      from Cons.IH [OF p(1) env1 xs1 tail_panic(1)] p(2) tail_panic(2) show ?thesis by simp
    next
      case tail_value
      from Cons.IH [OF p(1) env1 xs1 tail_value(1)]
      have ok: "storeOK st'" and le: "next_addr st1 \<le> next_addr st'"
        and vs: "list_all (envsBelow (next_addr st')) vs" by simp_all
      from p(3) le have "envsBelow (next_addr st') v" by (auto intro: envsBelow_mono)
      with ok le vs p(2) tail_value(2) show ?thesis by simp
    qed
  qed
qed

lemma callPrim_value: "callPrim p args = Inr v \<Longrightarrow> envsBelow k v"
  by (cases p) (auto simp: primAdd_def split: if_splits val.splits)

lemma evalApply_preserves:
  assumes ev: "preserves ev" and ok: "storeOK st" and env: "env < next_addr st"
    and l: "envsBelow (next_addr st) (List l)" and ne: "l \<noteq> []"
    and a: "evalApply ev l env st = Some q"
  shows "okAfter st q"
proof -
  from l ne have l0: "envsBelow (next_addr st) (l ! 0)" by (auto intro: envsBelow_nth)
  from a consider
      (head_panic) e st1 where "ev (l ! 0) env st = Some (Inl e, st1)" "q = (Inl e, st1)"
    | (head_value) car st1 where "ev (l ! 0) env st = Some (Inr car, st1)"
        "andThen (makeArgs ev (drop 1 l) env st1) (\<lambda>args st.
           (case car of
              Primitive prim \<Rightarrow> Some (callPrim prim args, st)
            | Procedure parms body penv \<Rightarrow> Call ev parms body penv args st
            | _ \<Rightarrow> Some (Inr NilV, st))) = Some q"
    by (auto simp: evalApply_def andThen_Some)
  then show ?thesis
  proof cases
    case head_panic
    from preserves_okAfter [OF ev ok env l0 head_panic(1)] head_panic(2) show ?thesis by simp
  next
    case head_value
    note p = preservesD [OF ev ok env l0 head_value(1)]
    from p(3) have car: "envsBelow (next_addr st1) car" by simp
    from p(2) env have env1: "env < next_addr st1" by simp
    from l have "envsBelow (next_addr st) (List (drop 1 l))" by (rule envsBelow_drop)
    from envsBelow_mono [OF this p(2)]
    have tl: "list_all (envsBelow (next_addr st1)) (drop 1 l)" by simp
    from head_value(2) consider
        (args_panic) e st2 where "makeArgs ev (drop 1 l) env st1 = Some (Inl e, st2)" "q = (Inl e, st2)"
      | (args_value) args st2 where "makeArgs ev (drop 1 l) env st1 = Some (Inr args, st2)"
          "(case car of
              Primitive prim \<Rightarrow> Some (callPrim prim args, st2)
            | Procedure parms body penv \<Rightarrow> Call ev parms body penv args st2
            | _ \<Rightarrow> Some (Inr NilV, st2)) = Some q"
      by (auto simp: andThen_Some)
    then show ?thesis
    proof cases
      case args_panic
      from makeArgs_preserves [OF ev p(1) env1 tl args_panic(1)] p(2) args_panic(2)
      show ?thesis by (simp add: okAfter_def)
    next
      case args_value
      from makeArgs_preserves [OF ev p(1) env1 tl args_value(1)]
      have ok2: "storeOK st2" and le2: "next_addr st1 \<le> next_addr st2"
        and args: "list_all (envsBelow (next_addr st2)) args" by simp_all
      from p(2) le2 have le: "next_addr st \<le> next_addr st2" by simp
      from car le2 have car2: "envsBelow (next_addr st2) car" by (rule envsBelow_mono)
      show ?thesis
      proof (cases car)
        case (Primitive prim)
        with args_value(2) have q: "q = (callPrim prim args, st2)" by simp
        show ?thesis
          unfolding q okAfter_def using ok2 le
          by (auto split: sum.splits intro: callPrim_value)
      next
        case (Procedure parms body penv)
        with car2 have penv: "penv < next_addr st2" and body: "envsBelow (next_addr st2) body"
          by simp_all
        obtain r3 st3 where n: "newEnv parms args penv st2 = (r3, st3)"
          by (cases "newEnv parms args penv st2")
        from storeOK_newEnv [OF ok2 penv args n]
        have ok3: "storeOK st3" and next3: "next_addr st3 = Suc (next_addr st2)"
          and r3: "r3 = Inl IndexOutOfRange \<or> r3 = Inr (next_addr st2)" by simp_all
        from r3 show ?thesis
        proof
          assume "r3 = Inl IndexOutOfRange"
          with args_value(2) Procedure n have "q = (Inl IndexOutOfRange, st3)"
            by (simp add: Call_def)
          with ok3 next3 le show ?thesis by (simp add: okAfter_def)
        next
          assume "r3 = Inr (next_addr st2)"
          with args_value(2) Procedure n have b: "ev body (next_addr st2) st3 = Some q"
            by (simp add: Call_def)
          from body next3 have "envsBelow (next_addr st3) body" by (simp add: envsBelow_Suc)
          from preserves_okAfter [OF ev ok3 _ this b] next3 have "okAfter st3 q" by simp
          moreover from le next3 have "next_addr st \<le> next_addr st3" by simp
          ultimately show ?thesis by (rule okAfter_trans [rotated])
        qed
      qed (use args_value(2) ok2 le in \<open>auto simp: okAfter_def\<close>)
    qed
  qed
qed

lemma isFalse_branch:
  "(case isFalse r of (b, ok) \<Rightarrow> if ok \<and> b then A else B) = (if r = Boolean False then A else B)"
  by (cases r) (auto simp: isFalse_def)

lemma evalBody_preserves:
  assumes ev: "preserves ev"
  shows "preserves (evalBody ev)"
  unfolding preserves_def
proof (intro allI impI)
  fix x env st q
  assume ok: "storeOK st" and env: "env < next_addr st" and x: "envsBelow (next_addr st) x"
    and b: "evalBody ev x env st = Some q"
  have sub: "okAfter st q'" if "ev y env st = Some q'" "envsBelow (next_addr st) y" for y q'
    using preserves_okAfter [OF ev ok env that(2) that(1)] .
  have found: "Find st env name < next_addr st" for name
    using Find_le [of st env name] env by simp
  show "okAfter st q"
  proof (cases x)
    case (Symbol str)
    with b have "q = (Inr (mapIndex (inner (frames st (Find st env str))) str), st)"
      by (simp add: evalBody_def)
    with ok found show ?thesis by (simp add: okAfter_value storeOK_lookup)
  next
    case (List l)
    show ?thesis
    proof (cases "l = []")
      case True
      with b List ok show ?thesis by (auto simp: evalBody_def okAfter_panic)
    next
      case False
      note ne = this
      from x List have l: "envsBelow (next_addr st) (List l)" by simp
      have nth: "envsBelow (next_addr st) (l ! i)" if "i < length l" for i
        using l that by (rule envsBelow_nth)
      have app: "evalApply ev l env st = Some q \<Longrightarrow> okAfter st q"
        by (rule evalApply_preserves [OF ev ok env l ne])
      show ?thesis
      proof (cases "l ! 0")
        case (Symbol str)
        consider (is_quote) "str = ''quote''" | (is_if) "str = ''if''" | (is_define) "str = ''define''"
          | (is_set) "str = ''set!''" | (is_lambda) "str = ''lambda''"
          | (other) "str \<notin> set specialForms"
          by (auto simp: specialForms_def)
        then show ?thesis
        proof cases
          case is_quote
          with b List ne Symbol ok nth [of 1] show ?thesis
            by (auto simp: evalBody_def okAfter_panic okAfter_value split: if_splits)
        next
          case is_if
          show ?thesis
          proof (cases "length l \<le> 3")
            case True
            with b List ne Symbol is_if ok show ?thesis by (auto simp: evalBody_def okAfter_panic)
          next
            case False
            with b List ne Symbol is_if
            have "andThen (ev (l ! 1) env st) (\<lambda>r st.
                    (case isFalse r of (b, ok) \<Rightarrow>
                       if ok \<and> b then ev (l ! 3) env st else ev (l ! 2) env st)) = Some q"
              by (simp add: evalBody_def)
            then consider
                (test_panic) e st1 where "ev (l ! 1) env st = Some (Inl e, st1)" "q = (Inl e, st1)"
              | (test_value) r st1 i where "ev (l ! 1) env st = Some (Inr r, st1)"
                  "ev (l ! i) env st1 = Some q" "i < length l"
              using False by (auto simp: andThen_Some isFalse_branch not_le split: if_splits)
            then show ?thesis
            proof cases
              case test_panic
              from sub [OF test_panic(1)] nth [of 1] False test_panic(2) show ?thesis by simp
            next
              case test_value
              from False have "envsBelow (next_addr st) (l ! 1)" by (simp add: nth)
              note p = preservesD [OF ev ok env this test_value(1)]
              from p(2) env have env1: "env < next_addr st1" by simp
              from nth [OF test_value(3)] p(2) have "envsBelow (next_addr st1) (l ! i)"
                by (rule envsBelow_mono)
              from p(2) preserves_okAfter [OF ev p(1) env1 this test_value(2)]
              show ?thesis by (rule okAfter_trans)
            qed
          qed
        next
          case is_define
          show ?thesis
          proof (cases "length l \<le> 2")
            case True
            with b List ne Symbol is_define ok show ?thesis by (auto simp: evalBody_def okAfter_panic)
          next
            case False
            then have l2: "envsBelow (next_addr st) (l ! 2)" by (simp add: nth)
            show ?thesis
            proof (cases "l ! 1")
              case name: (Symbol name)
              with b List ne Symbol is_define False
              have "andThen (ev (l ! 2) env st) (\<lambda>v st.
                      let st = setInner st env name v
                      in Some (Inr (mapIndex (inner (frames st env)) name), st)) = Some q"
                by (simp add: evalBody_def)
              then consider
                  (exp_panic) e st1 where "ev (l ! 2) env st = Some (Inl e, st1)" "q = (Inl e, st1)"
                | (exp_value) v st1 where "ev (l ! 2) env st = Some (Inr v, st1)"
                    "q = (Inr v, setInner st1 env name v)"
                by (auto simp: andThen_Some Let_def mapIndex_setInner)
              then show ?thesis
              proof cases
                case exp_panic
                from sub [OF exp_panic(1) l2] exp_panic(2) show ?thesis by simp
              next
                case exp_value
                note p = preservesD [OF ev ok env l2 exp_value(1)]
                from p(2) env have "env < next_addr st1" by simp
                from storeOK_setInner [OF p(1) this p(3)] p(2) p(3) exp_value(2)
                show ?thesis by (simp add: okAfter_def setInner_next_addr)
              qed
            qed (use b List ne Symbol is_define False ok in
                  \<open>auto simp: evalBody_def okAfter_panic\<close>)
          qed
        next
          case is_set
          show ?thesis
          proof (cases "length l \<le> 2")
            case True
            with b List ne Symbol is_set ok show ?thesis by (auto simp: evalBody_def okAfter_panic)
          next
            case False
            then have l2: "envsBelow (next_addr st) (l ! 2)" by (simp add: nth)
            show ?thesis
            proof (cases "l ! 1")
              case name: (Symbol name)
              with b List ne Symbol is_set False
              have "andThen (ev (l ! 2) env st) (\<lambda>v st'.
                      let st' = setInner st' (Find st env name) name v
                      in Some (Inr (mapIndex (inner (frames st' (Find st env name))) name), st')) = Some q"
                by (simp add: evalBody_def Let_def)
              then consider
                  (exp_panic) e st1 where "ev (l ! 2) env st = Some (Inl e, st1)" "q = (Inl e, st1)"
                | (exp_value) v st1 where "ev (l ! 2) env st = Some (Inr v, st1)"
                    "q = (Inr v, setInner st1 (Find st env name) name v)"
                by (auto simp: andThen_Some Let_def mapIndex_setInner)
              then show ?thesis
              proof cases
                case exp_panic
                from sub [OF exp_panic(1) l2] exp_panic(2) show ?thesis by simp
              next
                case exp_value
                note p = preservesD [OF ev ok env l2 exp_value(1)]
                from p(2) found [of name] have "Find st env name < next_addr st1" by simp
                from storeOK_setInner [OF p(1) this p(3)] p(2) p(3) exp_value(2)
                show ?thesis by (simp add: okAfter_def setInner_next_addr)
              qed
            qed (use b List ne Symbol is_set False ok in
                  \<open>auto simp: evalBody_def okAfter_panic\<close>)
          qed
        next
          case is_lambda
          with b List ne Symbol ok env nth [of 2] show ?thesis
            by (auto simp: evalBody_def newProcedure_def okAfter_def split: if_splits sum.splits)
        next
          case other
          with b List ne Symbol show ?thesis
            by (auto simp: evalBody_def specialForms_def intro: app)
        qed
      qed (use b List ne app in \<open>simp_all add: evalBody_def\<close>)
    qed
  qed (use b ok x in \<open>auto simp: evalBody_def okAfter_value\<close>)
qed

lemma eval_preserves: "preserves (eval n)"
proof (induction n)
  case 0
  show ?case by (simp add: preserves_def)
next
  case (Suc n)
  from evalBody_preserves [OF Suc] show ?case by (simp add: preserves_def)
qed

lemma initStore_OK: "storeOK initStore \<and> globalEnv < next_addr initStore"
  by (simp add: storeOK_def initStore_def globalEnv_def standardEnv_def newEmptyEnv_def
        emptyStore_def setInner_def)

lemma Find_unfold:
  assumes "storeOK st" and "env < next_addr st"
  shows "Find st env v =
     (if mapIndex (inner (frames st env)) v \<noteq> NilV \<or> outer (frames st env) = None then env
      else Find st (the (outer (frames st env))) v)"
  using assms by (subst Find.simps) (auto simp: storeOK_def split: option.splits)

lemma readFromTokens_envsBelow: "readFromTokens ts = Inr (v, rest) \<Longrightarrow> envsBelow k v"
  and readList_envsBelow:
    "readList l ts' = Inr (v', rest') \<Longrightarrow> list_all (envsBelow k) l \<Longrightarrow> envsBelow k v'"
proof (induction ts and l ts' arbitrary: v rest and v' rest' rule: readFromTokens_readList.induct)
  case 1
  then show ?case by simp
next
  case (2 t ts)
  then show ?case
    by (auto simp: pop_def atom_def split: if_splits option.splits)
next
  case (3 l)
  then show ?case by simp
next
  case (4 l t ts)
  show ?case
  proof (cases "t = '')''")
    case True
    with "4.prems" show ?thesis by (auto simp: pop_def)
  next
    case False
    with "4.prems" obtain s tokens where r: "readFromTokens (t # ts) = Inr (s, tokens)"
      and l: "length tokens < length (t # ts)" and rl: "readList (l @ [s]) tokens = Inr (v', rest')"
      by (auto split: sum.splits prod.splits if_splits)
    from "4.IH"(1) [OF False r] have "envsBelow k s" .
    with "4.prems"(2) have "list_all (envsBelow k) (l @ [s])" by simp
    from "4.IH"(2) [OF False r _ l rl this] show ?thesis by simp
  qed
qed

lemma parse_eval_storeOK:
  assumes "storeOK st" and "globalEnv < next_addr st" and "parse program = Inr x"
    and "eval n x globalEnv st = Some (r, st')"
  shows "storeOK st' \<and> globalEnv < next_addr st'"
proof -
  from assms(3) have "envsBelow (next_addr st) x"
    by (auto simp: parse_def split: sum.splits prod.splits dest: readFromTokens_envsBelow)
  from preservesD(1,2) [OF eval_preserves assms(1,2) this assms(4)] assms(2)
  show ?thesis by simp
qed

section \<open>The lexer and the reader\<close>

text \<open>
  Claim C10. \<^verbatim>\<open>parse\<close> returns the first expression only: when the tokens of the input
  are those of one complete expression followed by any further tokens, \<^verbatim>\<open>parse\<close> returns
  that expression; the further tokens are dropped, whatever they are, and no error is
  reported for them.
\<close>

theorem parse_first_expression_only:
  "tokenize program = ts @ extra \<Longrightarrow> readFromTokens ts = Inr (s, []) \<Longrightarrow> parse program = Inr s"
  using readFromTokens_append [of ts s "[]" extra] by (simp add: parse_def)

theorem parse_first_expression_only_witness:
  "tokenize ''(+ 1 2) (+ 3 4) )'' = [''('', ''+'', ''1'', ''2'', '')''] @ [''('', ''+'', ''3'', ''4'', '')'', '')'']
   \<and> readFromTokens [''('', ''+'', ''1'', ''2'', '')''] = Inr (List [Symbol ''+'', Integer 1, Integer 2], [])
   \<and> parse ''(+ 1 2) (+ 3 4) )'' = Inr (List [Symbol ''+'', Integer 1, Integer 2])"
proof -
  have t: "tokenize ''(+ 1 2) (+ 3 4) )'' = [''('', ''+'', ''1'', ''2'', '')''] @ [''('', ''+'', ''3'', ''4'', '')'', '')'']"
    by code_simp
  have r: "readFromTokens [''('', ''+'', ''1'', ''2'', '')''] = Inr (List [Symbol ''+'', Integer 1, Integer 2], [])"
    by code_simp
  from parse_first_expression_only [OF t r] t r show ?thesis by simp
qed

text \<open>
  Claim C5. Malformed input. Reading \<^verbatim>\<open>(1\<close> fails, but in the loop head
  \<^verbatim>\<open>tokens[0] != ")"\<close>, with the run-time panic of an index out of range: the panic
  \<^verbatim>\<open>unexpected EOF while reading\<close> guards the entry of \<^verbatim>\<open>readFromTokens\<close> only, and
  no input reaches it (lemma \<open>parse_no_EOF\<close>). Reading \<^verbatim>\<open>)\<close> fails with the panic
  \<^verbatim>\<open>unexpected )\<close>, and evaluating \<^verbatim>\<open>()\<close> fails with the panic \<^verbatim>\<open>empty list\<close>.
\<close>

theorem malformed_input:
  "parse ''(1'' = Inl IndexOutOfRange
   \<and> parse '')'' = Inl (Panic ''unexpected )'')
   \<and> parse ''()'' = Inr (List [])
   \<and> resultOf (eval 1 (List []) globalEnv initStore) = Some (Inl (Panic ''empty list''))"
  by code_simp

text \<open>
  Claim C6. The lexer on empty input. \<^verbatim>\<open>Split\<close> gives one empty piece for the empty
  string, so the empty input and an input of white space only have one token, the empty
  one; the reader makes the symbol with the empty name of it, which evaluates to nil.
  No failure surfaces. The token sequence is never empty (lemma \<open>tokenize_nonempty\<close>),
  and on every other input no token is empty (lemma \<open>tokenize_no_empty_token\<close>).
\<close>

theorem tokenize_empty_input:
  "tokenize '''' = [''''] \<and> tokenize ''   '' = [''''] \<and> parse '''' = Inr (Symbol '''')
   \<and> resultOf (eval 1 (Symbol '''') globalEnv initStore) = Some (Inr NilV)"
  by code_simp

text \<open>
  Claim C7. \<^verbatim>\<open>atom\<close> on a token that begins with digits. \<^verbatim>\<open>Sscan\<close> stops at the first
  character that is no digit and reports no error for the rest, so \<^verbatim>\<open>12abc\<close> becomes
  the integer 12, as \<^verbatim>\<open>12\<close> does; a base prefix is read as Go reads it, so \<^verbatim>\<open>0x1F\<close>
  becomes 31.
\<close>

theorem atom_digit_prefix:
  "atom ''12abc'' = Integer 12 \<and> atom ''12'' = Integer 12 \<and> atom ''abc'' = Symbol ''abc''
   \<and> atom ''0x1F'' = Integer 31"
  by code_simp

section \<open>Variables\<close>

lemma eval_Symbol:
  "eval (Suc n) (Symbol str) env st = Some (Inr (mapIndex (inner (frames st (Find st env str))) str), st)"
  by (simp add: evalBody_def)

lemma Find_unbound: "unboundIn st env v \<Longrightarrow> Find st env v = last (frameChain st env)"
proof (induction st env rule: frameChain.induct)
  case (1 st env)
  show ?case
  proof (cases "outer (frames st env)")
    case None
    then show ?thesis by (simp add: Find.simps [of st env] frameChain.simps [of st env])
  next
    case (Some out)
    show ?thesis
    proof (cases "out < env")
      case True
      from "1.prems" Some True have here: "mapIndex (inner (frames st env)) v = NilV"
        and rest: "unboundIn st out v"
        by (simp_all add: unboundIn_def frameChain.simps [of st env])
      have ne: "frameChain st out \<noteq> []"
        by (simp add: frameChain.simps [of st out] split: option.splits)
      from "1.IH" [OF Some True rest] here Some True ne show ?thesis
        by (simp add: Find.simps [of st env] frameChain.simps [of st env])
    next
      case False
      with Some show ?thesis by (simp add: Find.simps [of st env] frameChain.simps [of st env])
    qed
  qed
qed

text \<open>
  Claim C1, as stated, fails: in the initial environment \<^verbatim>\<open>z\<close> is unbound, yet
  evaluating \<^verbatim>\<open>z\<close> gives nil and evaluating \<^verbatim>\<open>(set! z 1)\<close> gives 1 and binds \<^verbatim>\<open>z\<close>
  in the global frame.
\<close>

theorem set_unbound_creates_binding:
  "parse ''(set! z 1)'' = Inr (List [Symbol ''set!'', Symbol ''z'', Integer 1])
   \<and> unboundIn initStore globalEnv ''z''
   \<and> resultOf (eval 2 (List [Symbol ''set!'', Symbol ''z'', Integer 1]) globalEnv initStore) = Some (Inr (Integer 1))
   \<and> bindingAfter (eval 2 (List [Symbol ''set!'', Symbol ''z'', Integer 1]) globalEnv initStore) globalEnv ''z'' = Some (Some (Integer 1))
   \<and> resultOf (eval 1 (Symbol ''z'') globalEnv initStore) = Some (Inr NilV)"
  by code_simp

text \<open>
  Claim C1, amended. For a name that is unbound in every frame of the chain, evaluating
  the symbol gives nil and leaves the store as it is, and \<^verbatim>\<open>(set! name e)\<close>, when \<open>e\<close>
  evaluates to a value, stores that value under the name in the root frame of the chain
  (the frame \<^verbatim>\<open>Find\<close> ends at) and returns it. Nothing fails.
\<close>

theorem unbound_name_reads_nil:
  assumes "unboundIn st env name"
  shows "eval (Suc n) (Symbol name) env st = Some (Inr NilV, st)
       \<and> (eval n e env st = Some (Inr v, st') \<longrightarrow>
            eval (Suc n) (List [Symbol ''set!'', Symbol name, e]) env st
              = Some (Inr v, setInner st' (last (frameChain st env)) name v))"
proof -
  have f: "Find st env name = last (frameChain st env)"
    using assms by (rule Find_unbound)
  have "frameChain st env \<noteq> []"
    by (simp add: frameChain.simps [of st env] split: option.splits)
  then have "last (frameChain st env) \<in> set (frameChain st env)" by simp
  with assms have "mapIndex (inner (frames st (last (frameChain st env)))) name = NilV"
    by (simp add: unboundIn_def list_all_iff)
  with f show ?thesis
    by (simp add: evalBody_def andThen_def mapIndex_setInner)
qed

lemma initStore_unbound_z: "unboundIn initStore globalEnv ''z''"
  by code_simp

lemma initStore_chain: "last (frameChain initStore globalEnv) = globalEnv"
  by code_simp

theorem unbound_name_reads_nil_witness:
  "unboundIn initStore globalEnv ''z''
   \<and> eval (Suc 1) (Symbol ''z'') globalEnv initStore = Some (Inr NilV, initStore)
   \<and> eval (Suc 1) (List [Symbol ''set!'', Symbol ''z'', Integer 1]) globalEnv initStore
       = Some (Inr (Integer 1), setInner initStore globalEnv ''z'' (Integer 1))"
proof -
  have e: "eval 1 (Integer 1) globalEnv initStore = Some (Inr (Integer 1), initStore)"
    by (simp add: evalBody_def)
  from unbound_name_reads_nil [OF initStore_unbound_z, of 1 "Integer 1" "Integer 1" initStore] e
  show ?thesis by (simp add: initStore_unbound_z initStore_chain)
qed

section \<open>Conditionals\<close>

lemma eval_if:
  "eval n test env st = Some (Inr r, st') \<Longrightarrow>
     eval (Suc n) (List [Symbol ''if'', test, conseq, alt]) env st
       = (if r = Boolean False then eval n alt env st' else eval n conseq env st')"
  by (cases r) (auto simp: evalBody_def andThen_def isFalse_def)

lemma eval_calc_if:
  "eval_calc test cenv = (Inr r, cenv') \<Longrightarrow>
     eval_calc (List [Symbol ''if'', test, conseq, alt]) cenv
       = (if r = Boolean False then eval_calc alt cenv' else eval_calc conseq cenv')"
  by (subst eval_calc.simps, cases r) (auto simp: andThen_calc_def isFalse_calc_def)

lemma eval_Integer: "eval (Suc n) (Integer i) env st = Some (Inr (Integer i), st)"
  by (simp add: evalBody_def)

lemma eval_calc_Integer: "eval_calc (Integer i) cenv = (Inr (Integer i), cenv)"
  by (subst eval_calc.simps) simp

lemma eval_calc_Symbol: "eval_calc (Symbol s) cenv = (Inr (mapIndex cenv s), cenv)"
  by (subst eval_calc.simps) simp

lemma initStore_false: "eval (Suc 0) (Symbol ''false'') globalEnv initStore = Some (Inr (Boolean False), initStore)"
proof -
  have "mapIndex (inner (frames initStore (Find initStore globalEnv ''false''))) ''false'' = Boolean False"
    by code_simp
  then show ?thesis by (simp add: evalBody_def)
qed

lemma initStore_true: "eval (Suc 0) (Symbol ''true'') globalEnv initStore = Some (Inr (Boolean True), initStore)"
proof -
  have "mapIndex (inner (frames initStore (Find initStore globalEnv ''true''))) ''true'' = Boolean True"
    by code_simp
  then show ?thesis by (simp add: evalBody_def)
qed

text \<open>
  Claim C3. In both variants, when the test of \<^verbatim>\<open>(if test conseq alt)\<close> evaluates to a
  value \<open>r\<close>, the result is the evaluation of \<open>alt\<close> if \<open>r\<close> is the Boolean false,
  and the evaluation of \<open>conseq\<close> for every other \<open>r\<close>; the branch is evaluated in
  the store (the map) that the test has left.
\<close>

theorem if_takes_alt_on_false_only:
  "(eval n test env st = Some (Inr r, st') \<longrightarrow>
      eval (Suc n) (List [Symbol ''if'', test, conseq, alt]) env st
        = (if r = Boolean False then eval n alt env st' else eval n conseq env st'))
   \<and> (eval_calc test cenv = (Inr r', cenv') \<longrightarrow>
      eval_calc (List [Symbol ''if'', test, conseq, alt]) cenv
        = (if r' = Boolean False then eval_calc alt cenv' else eval_calc conseq cenv'))"
  by (intro conjI impI) (erule eval_if, erule eval_calc_if)

theorem if_takes_alt_on_false_only_witness:
  "eval 2 (List [Symbol ''if'', Symbol ''false'', Integer 1, Integer 2]) globalEnv initStore
     = Some (Inr (Integer 2), initStore)
   \<and> eval 2 (List [Symbol ''if'', Symbol ''true'', Integer 1, Integer 2]) globalEnv initStore
     = Some (Inr (Integer 1), initStore)
   \<and> eval 2 (List [Symbol ''if'', Integer 0, Integer 1, Integer 2]) globalEnv initStore
     = Some (Inr (Integer 1), initStore)
   \<and> eval_calc (List [Symbol ''if'', Symbol ''false'', Integer 1, Integer 2]) standardEnv_calc
     = (Inr (Integer 2), standardEnv_calc)
   \<and> eval_calc (List [Symbol ''if'', Symbol ''true'', Integer 1, Integer 2]) standardEnv_calc
     = (Inr (Integer 1), standardEnv_calc)
   \<and> eval_calc (List [Symbol ''if'', Integer 0, Integer 1, Integer 2]) standardEnv_calc
     = (Inr (Integer 1), standardEnv_calc)"
proof -
  have two: "(2::nat) = Suc (Suc 0)" by simp
  have cf: "eval_calc (Symbol ''false'') standardEnv_calc = (Inr (Boolean False), standardEnv_calc)"
    by (simp add: eval_calc_Symbol standardEnv_calc_def mapIndex_def)
  have ct: "eval_calc (Symbol ''true'') standardEnv_calc = (Inr (Boolean True), standardEnv_calc)"
    by (simp add: eval_calc_Symbol standardEnv_calc_def mapIndex_def)
  note t = if_takes_alt_on_false_only
  from t [where n = "Suc 0" and test = "Symbol ''false''" and env = globalEnv and st = initStore
             and r = "Boolean False" and st' = initStore and conseq = "Integer 1" and alt = "Integer 2"
             and cenv = standardEnv_calc and r' = "Boolean False" and cenv' = standardEnv_calc]
       t [where n = "Suc 0" and test = "Symbol ''true''" and env = globalEnv and st = initStore
             and r = "Boolean True" and st' = initStore and conseq = "Integer 1" and alt = "Integer 2"
             and cenv = standardEnv_calc and r' = "Boolean True" and cenv' = standardEnv_calc]
       t [where n = "Suc 0" and test = "Integer 0" and env = globalEnv and st = initStore
             and r = "Integer 0" and st' = initStore and conseq = "Integer 1" and alt = "Integer 2"
             and cenv = standardEnv_calc and r' = "Integer 0" and cenv' = standardEnv_calc]
  show ?thesis
    unfolding two
    by (simp del: eval.simps add: initStore_false initStore_true cf ct eval_Integer eval_calc_Integer)
qed

section \<open>Definitions\<close>

lemma eval_define:
  "eval n e env st = Some (Inr v, st') \<Longrightarrow>
     eval (Suc n) (List [Symbol ''define'', Symbol name, e]) env st
       = Some (Inr v, setInner st' env name v)"
  by (simp add: evalBody_def andThen_def mapIndex_setInner)

lemma eval_calc_define:
  "eval_calc e cenv = (Inr v, cenv') \<Longrightarrow>
     eval_calc (List [Symbol ''define'', Symbol name, e]) cenv = (Inr v, cenv'(name \<mapsto> v))"
  by (subst eval_calc.simps) (simp add: andThen_calc_def mapIndex_def)

lemma callStore_frames:
  "outer (frames callStore (Suc 0)) = Some globalEnv"
  "mapIndex (inner (frames callStore globalEnv)) ''a'' = Integer 10"
  "globalEnv \<noteq> Suc 0"
  by code_simp+

text \<open>
  Claim C9. When the expression of \<^verbatim>\<open>(define name e)\<close> evaluates to a value, that value
  is returned and stored under the name in the current frame: the frame's other
  bindings and its outer pointer stay, every other frame of the store stays as the
  evaluation of \<open>e\<close> left it, and no frame is created. In the calculator variant the
  one map is updated.
\<close>

theorem define_binds_in_current_frame:
  "(eval n e env st = Some (Inr v, st') \<longrightarrow>
      eval (Suc n) (List [Symbol ''define'', Symbol name, e]) env st
        = Some (Inr v, setInner st' env name v)
      \<and> inner (frames (setInner st' env name v) env) = (inner (frames st' env))(name \<mapsto> v)
      \<and> outer (frames (setInner st' env name v) env) = outer (frames st' env)
      \<and> (\<forall>a. a \<noteq> env \<longrightarrow> frames (setInner st' env name v) a = frames st' a)
      \<and> next_addr (setInner st' env name v) = next_addr st')
   \<and> (eval_calc e cenv = (Inr v', cenv') \<longrightarrow>
      eval_calc (List [Symbol ''define'', Symbol name, e]) cenv = (Inr v', cenv'(name \<mapsto> v')))"
  by (simp add: eval_define eval_calc_define setInner_frames setInner_next_addr del: eval.simps)

theorem define_binds_in_current_frame_witness:
  "eval 2 (List [Symbol ''define'', Symbol ''a'', Integer 20]) 1 callStore
     = Some (Inr (Integer 20), setInner callStore 1 ''a'' (Integer 20))
   \<and> outer (frames callStore 1) = Some globalEnv
   \<and> mapIndex (inner (frames callStore globalEnv)) ''a'' = Integer 10
   \<and> mapIndex (inner (frames (setInner callStore 1 ''a'' (Integer 20)) 1)) ''a'' = Integer 20
   \<and> mapIndex (inner (frames (setInner callStore 1 ''a'' (Integer 20)) globalEnv)) ''a'' = Integer 10
   \<and> eval_calc (List [Symbol ''define'', Symbol ''a'', Integer 20]) standardEnv_calc
     = (Inr (Integer 20), standardEnv_calc(''a'' \<mapsto> Integer 20))"
proof -
  have two: "(2::nat) = Suc (Suc 0)" by simp
  from define_binds_in_current_frame [where n = "Suc 0" and e = "Integer 20" and env = 1
         and st = callStore and v = "Integer 20" and st' = callStore and name = "''a''"
         and cenv = standardEnv_calc and v' = "Integer 20" and cenv' = standardEnv_calc]
  show ?thesis
    unfolding two
    by (simp del: eval.simps
          add: eval_Integer eval_calc_Integer callStore_frames mapIndex_upd setInner_frames)
qed

text \<open>A \<^verbatim>\<open>define\<close> in the body of a procedure shadows: the global \<^verbatim>\<open>a\<close> is still 10 after
  the call.\<close>

lemma define_in_procedure_shadows:
  "parse ''(define f (lambda () (define a 20)))''
     = Inr (List [Symbol ''define'', Symbol ''f'', List [Symbol ''lambda'', List [], List [Symbol ''define'', Symbol ''a'', Integer 20]]])
   \<and> resultOf
       (andThen (eval 3 (List [Symbol ''define'', Symbol ''a'', Integer 10]) globalEnv initStore) (\<lambda>v st.
        andThen (eval 3 (List [Symbol ''define'', Symbol ''f'', List [Symbol ''lambda'', List [], List [Symbol ''define'', Symbol ''a'', Integer 20]]]) globalEnv st) (\<lambda>v st.
        andThen (eval 3 (List [Symbol ''f'']) globalEnv st) (\<lambda>v st.
                 eval 3 (Symbol ''a'') globalEnv st))))
     = Some (Inr (Integer 10))"
  by code_simp

section \<open>Procedure calls\<close>

lemma bindParms_enough:
  "length parms \<le> length args \<Longrightarrow> bindParms parms args m = (None, m(parms [\<mapsto>] args))"
  by (induction parms args m rule: bindParms.induct) simp_all

lemma bindParms_short:
  "length args < length parms \<Longrightarrow> fst (bindParms parms args m) = Some IndexOutOfRange"
  by (induction parms args m rule: bindParms.induct) simp_all

lemma newEnv_enough:
  "length parms \<le> length args \<Longrightarrow>
     newEnv parms args penv st =
       (Inr (next_addr st),
        st\<lparr>frames := (frames st)(next_addr st := \<lparr>inner = Map.empty(parms [\<mapsto>] args), outer = Some penv\<rparr>),
           next_addr := Suc (next_addr st)\<rparr>)"
  by (simp add: newEnv_def newEmptyEnv_def bindParms_enough)

lemma newEnv_short:
  "length args < length parms \<Longrightarrow> fst (newEnv parms args penv st) = Inl IndexOutOfRange"
  using bindParms_short [of args parms Map.empty]
  by (auto simp: newEnv_def newEmptyEnv_def split: prod.splits option.splits)

text \<open>
  Claim C4, as stated, fails: a procedure of one parameter called with two arguments
  does not fail; \<^verbatim>\<open>((lambda (a) a) 1 2)\<close> evaluates to 1.
\<close>

theorem surplus_arguments_ignored:
  "parse ''((lambda (a) a) 1 2)''
     = Inr (List [List [Symbol ''lambda'', List [Symbol ''a''], Symbol ''a''], Integer 1, Integer 2])
   \<and> resultOf (eval 3 (List [List [Symbol ''lambda'', List [Symbol ''a''], Symbol ''a''], Integer 1, Integer 2])
                 globalEnv initStore)
       = Some (Inr (Integer 1))"
  by code_simp

text \<open>
  Claim C4, amended. \<^verbatim>\<open>Procedure.Call\<close> has no test of the argument count. With at
  least as many arguments as parameters, a new frame is created that binds each parameter
  to the argument at its position (arguments beyond the parameters are ignored; of two
  parameters of one name the later one stands), its outer pointer is the frame the
  procedure has captured, and the result is the evaluation of the body in the new frame.
  With fewer arguments than parameters the call fails, with the run-time panic of
  \<^verbatim>\<open>args[i]\<close> out of range, before the body is evaluated.
\<close>

theorem call_binds_parameters:
  "(length parms \<le> length args \<longrightarrow>
      Call (eval n) parms body penv args st =
        eval n body (next_addr st)
          (st\<lparr>frames := (frames st)(next_addr st :=
                  \<lparr>inner = Map.empty(parms [\<mapsto>] args), outer = Some penv\<rparr>),
              next_addr := Suc (next_addr st)\<rparr>))
   \<and> (length args < length parms \<longrightarrow>
      resultOf (Call (eval n) parms body penv args st) = Some (Inl IndexOutOfRange))"
proof (intro conjI impI)
  assume "length parms \<le> length args"
  then show "Call (eval n) parms body penv args st =
        eval n body (next_addr st)
          (st\<lparr>frames := (frames st)(next_addr st :=
                  \<lparr>inner = Map.empty(parms [\<mapsto>] args), outer = Some penv\<rparr>),
              next_addr := Suc (next_addr st)\<rparr>)"
    by (simp add: Call_def newEnv_enough)
next
  assume "length args < length parms"
  from newEnv_short [OF this, of penv st]
  show "resultOf (Call (eval n) parms body penv args st) = Some (Inl IndexOutOfRange)"
    by (cases "newEnv parms args penv st") (simp add: Call_def resultOf_def)
qed

theorem call_binds_parameters_witness:
  "Call (eval (Suc 0)) [''a''] (Symbol ''a'') globalEnv [Integer 1, Integer 2] initStore =
     eval (Suc 0) (Symbol ''a'') (next_addr initStore)
       (initStore\<lparr>frames := (frames initStore)(next_addr initStore :=
               \<lparr>inner = Map.empty([''a''] [\<mapsto>] [Integer 1, Integer 2]), outer = Some globalEnv\<rparr>),
           next_addr := Suc (next_addr initStore)\<rparr>)
   \<and> resultOf (Call (eval (Suc 0)) [''a''] (Symbol ''a'') globalEnv [Integer 1, Integer 2] initStore)
       = Some (Inr (Integer 1))
   \<and> resultOf (Call (eval (Suc 0)) [''a'', ''b''] (Symbol ''a'') globalEnv [Integer 1] initStore)
       = Some (Inl IndexOutOfRange)"
proof -
  have r: "resultOf (Call (eval (Suc 0)) [''a''] (Symbol ''a'') globalEnv [Integer 1, Integer 2] initStore)
       = Some (Inr (Integer 1))"
    by code_simp
  from call_binds_parameters [where parms = "[''a'']" and args = "[Integer 1, Integer 2]"
         and n = "Suc 0" and body = "Symbol ''a''" and penv = globalEnv and st = initStore]
       call_binds_parameters [where parms = "[''a'', ''b'']" and args = "[Integer 1]"
         and n = "Suc 0" and body = "Symbol ''a''" and penv = globalEnv and st = initStore]
       r
  show ?thesis by (simp del: eval.simps)
qed

text \<open>An application whose head evaluates to a procedure is such a call, on the arguments
  evaluated from left to right.\<close>

lemma eval_apply_Procedure:
  assumes "f \<notin> Symbol ` set specialForms"
    and "eval n f env st = Some (Inr (Procedure parms body penv), st1)"
    and "makeArgs (eval n) es env st1 = Some (Inr args, st2)"
  shows "eval (Suc n) (List (f # es)) env st = Call (eval n) parms body penv args st2"
proof -
  have "evalBody (eval n) (List (f # es)) env st = evalApply (eval n) (f # es) env st"
    using assms(1) by (cases f) (auto simp: evalBody_def specialForms_def)
  with assms(2,3) show ?thesis by (simp add: evalApply_def andThen_def)
qed

section \<open>The primitive \<^verbatim>\<open>+\<close>\<close>

text \<open>
  Claim C2, as stated, fails: \<^verbatim>\<open>(+ 1 2 3)\<close> does not fail, it evaluates to 3 in both
  variants.
\<close>

theorem add_of_three_arguments:
  "parse ''(+ 1 2 3)'' = Inr (List [Symbol ''+'', Integer 1, Integer 2, Integer 3])
   \<and> resultOf (eval 2 (List [Symbol ''+'', Integer 1, Integer 2, Integer 3]) globalEnv initStore)
       = Some (Inr (Integer 3))
   \<and> fst (eval_calc (List [Symbol ''+'', Integer 1, Integer 2, Integer 3]) standardEnv_calc)
       = Inr (Integer 3)"
  by code_simp

text \<open>
  Claim C2, amended. The primitive reads its first two arguments only. Whenever these
  are Integers, it returns their sum (in 64 bits, wrapping around), whatever follows
  them. It fails with the panic \<^verbatim>\<open>+ needs numbers\<close> exactly when there are two
  arguments or more and one of the first two is no Integer, and with the run-time panic
  of an index out of range exactly when there are fewer than two arguments.
\<close>

theorem primAdd_reads_two_arguments:
  "primAdd (Integer n # Integer m # others) = Inr (Integer (n + m))
   \<and> (primAdd args = Inl (Panic ''+ needs numbers'')
        \<longleftrightarrow> 2 \<le> length args \<and> \<not> (isInteger (args ! 0) \<and> isInteger (args ! 1)))
   \<and> (primAdd args = Inl IndexOutOfRange \<longleftrightarrow> length args < 2)"
proof (intro conjI)
  show "primAdd (Integer n # Integer m # others) = Inr (Integer (n + m))"
    by (simp add: primAdd_def)
  show "primAdd args = Inl (Panic ''+ needs numbers'')
        \<longleftrightarrow> 2 \<le> length args \<and> \<not> (isInteger (args ! 0) \<and> isInteger (args ! 1))"
    by (cases "args ! 0"; cases "args ! 1") (auto simp: primAdd_def isInteger_def)
  show "primAdd args = Inl IndexOutOfRange \<longleftrightarrow> length args < 2"
    by (cases "args ! 0"; cases "args ! 1") (auto simp: primAdd_def)
qed

theorem primAdd_reads_two_arguments_witness:
  "primAdd [Integer 1, Integer 2] = Inr (Integer 3)
   \<and> primAdd [Integer 1, Integer 2, Integer 3] = Inr (Integer 3)
   \<and> primAdd [Integer 1, Symbol ''a''] = Inl (Panic ''+ needs numbers'')
   \<and> primAdd [Integer 1] = Inl IndexOutOfRange"
  using primAdd_reads_two_arguments [of 1 2 "[]" "[Integer 1, Symbol ''a'']"]
        primAdd_reads_two_arguments [of 1 2 "[Integer 3]" "[Integer 1]"]
  by (simp add: isInteger_def)

lemma add_of_two_arguments:
  "parse ''(+ 1 2)'' = Inr (List [Symbol ''+'', Integer 1, Integer 2])
   \<and> resultOf (eval 2 (List [Symbol ''+'', Integer 1, Integer 2]) globalEnv initStore)
       = Some (Inr (Integer 3))
   \<and> fst (eval_calc (List [Symbol ''+'', Integer 1, Integer 2]) standardEnv_calc)
       = Inr (Integer 3)"
  by code_simp

section \<open>Applying what is no procedure\<close>

lemma eval_apply_other:
  assumes "f \<notin> Symbol ` set specialForms"
    and "eval n f env st = Some (Inr car, st1)"
    and "makeArgs (eval n) es env st1 = Some (Inr args, st2)"
    and "\<forall>prim. car \<noteq> Primitive prim" and "\<forall>parms body penv. car \<noteq> Procedure parms body penv"
  shows "eval (Suc n) (List (f # es)) env st = Some (Inr NilV, st2)"
proof -
  have "evalBody (eval n) (List (f # es)) env st = evalApply (eval n) (f # es) env st"
    using assms(1) by (cases f) (auto simp: evalBody_def specialForms_def)
  with assms(2-5) show ?thesis by (cases car) (simp_all add: evalApply_def andThen_def)
qed

text \<open>
  Claim C8. With \<^verbatim>\<open>true\<close> bound to the Boolean true, \<^verbatim>\<open>(true 1)\<close> evaluates to nil in
  the variant with environments: after the tests for a primitive and for a procedure,
  \<^verbatim>\<open>eval\<close> returns nil (lemma \<open>eval_apply_other\<close> has every such application). The
  calculator variant panics with \<^verbatim>\<open>not a procedure\<close> there. A list whose head is no
  symbol, as \<^verbatim>\<open>(1 2)\<close>, evaluates to nil in both variants.
\<close>

theorem application_of_non_procedure:
  "parse ''(true 1)'' = Inr (List [Symbol ''true'', Integer 1])
   \<and> resultOf (eval 2 (List [Symbol ''true'', Integer 1]) globalEnv initStore) = Some (Inr NilV)
   \<and> fst (eval_calc (List [Symbol ''true'', Integer 1]) standardEnv_calc) = Inl (Panic ''not a procedure'')
   \<and> parse ''(1 2)'' = Inr (List [Integer 1, Integer 2])
   \<and> resultOf (eval 2 (List [Integer 1, Integer 2]) globalEnv initStore) = Some (Inr NilV)
   \<and> fst (eval_calc (List [Integer 1, Integer 2]) standardEnv_calc) = Inr NilV"
  by code_simp

end
